theory Spec2Isabelle
  imports Main "HOL-Library.Multiset"
begin

section \<open>Data model of the resharding oplog applier\<close>

text \<open>
  The types below follow \<^verbatim>\<open>resharding_oplog_applier.cpp\<close>. Types declared in headers
  that the applier only uses (timestamps, namespaces, session ids, BSON) are modelled by the
  values the applier reads from them: a \<^verbatim>\<open>Timestamp\<close> by its position in the total order of
  timestamps, a UUID by a number, a BSON object by its ordered list of fields.
\<close>

type_synonym Timestamp = nat
type_synonym UUID = nat
type_synonym TxnNumber = int
type_synonym StmtId = int
type_synonym ShardId = string

datatype bson = BNumber int | BString string | BTimestamp Timestamp | BObj "(string \<times> bson) list"

datatype NamespaceString = NamespaceString (db: string) (coll: string)

datatype LogicalSessionId = LogicalSessionId (lsidId: UUID) (lsidUid: nat)

datatype OpTypeEnum = kCommand | kInsert | kUpdate | kDelete | kNoop

record OpTime =
  opTimestamp :: Timestamp
  opTerm :: int

record OperationSessionInfo =
  infoSessionId :: "LogicalSessionId option"
  infoTxnNumber :: "TxnNumber option"

text \<open>
  \<^verbatim>\<open>repl::DurableOplogEntry\<close>: one field per argument of the constructor the applier calls,
  in the constructor's order.
\<close>

record DurableOplogEntry =
  opTime :: OpTime
  hash :: "int option"
  opType :: OpTypeEnum
  nss :: NamespaceString
  uuid :: "UUID option"
  fromMigrate :: "bool option"
  version :: int
  object :: bson
  object2 :: "bson option"
  sessionInfo :: OperationSessionInfo
  upsert :: "bool option"
  wallClockTime :: int
  statementId :: "StmtId option"
  prevWriteOpTimeInTransaction :: "OpTime option"
  preImageOpTime :: "OpTime option"
  postImageOpTime :: "OpTime option"
  destinedRecipient :: "ShardId option"
  id_field :: "bson option"

text \<open>
  \<^verbatim>\<open>repl::OplogEntry\<close>: the durable entry together with the in-memory pre-image and
  post-image entries set by \<^verbatim>\<open>setPreImageOp\<close> and \<^verbatim>\<open>setPostImageOp\<close>.
\<close>

record OplogEntry =
  getEntry :: DurableOplogEntry
  getPreImageOp :: "DurableOplogEntry option"
  getPostImageOp :: "DurableOplogEntry option"

definition getOpType :: "OplogEntry \<Rightarrow> OpTypeEnum" where
  "getOpType op = opType (getEntry op)"

definition getNss :: "OplogEntry \<Rightarrow> NamespaceString" where
  "getNss op = nss (getEntry op)"

definition getUuid :: "OplogEntry \<Rightarrow> UUID option" where
  "getUuid op = uuid (getEntry op)"

definition getObject :: "OplogEntry \<Rightarrow> bson" where
  "getObject op = object (getEntry op)"

definition getObject2 :: "OplogEntry \<Rightarrow> bson option" where
  "getObject2 op = object2 (getEntry op)"

definition getSessionId :: "OplogEntry \<Rightarrow> LogicalSessionId option" where
  "getSessionId op = infoSessionId (sessionInfo (getEntry op))"

definition getTxnNumber :: "OplogEntry \<Rightarrow> TxnNumber option" where
  "getTxnNumber op = infoTxnNumber (sessionInfo (getEntry op))"

definition getStatementId :: "OplogEntry \<Rightarrow> StmtId option" where
  "getStatementId op = statementId (getEntry op)"

definition getTimestamp :: "OplogEntry \<Rightarrow> Timestamp" where
  "getTimestamp op = opTimestamp (opTime (getEntry op))"

definition get_id :: "OplogEntry \<Rightarrow> bson option" where
  "get_id op = id_field (getEntry op)"

text \<open>
  A \<^verbatim>\<open>Status\<close> is OK or carries an error code (the reason string is not modelled). An
  exception thrown by \<^verbatim>\<open>uassert\<close>/\<^verbatim>\<open>uasserted\<close> is a \<open>DBException\<close> with the assertion's
  code, and so is a non-OK \<^verbatim>\<open>Status\<close> that a future carries; a failed \<^verbatim>\<open>invariant\<close> aborts
  the process; dereferencing an empty optional, \<^verbatim>\<open>back()\<close> and \<^verbatim>\<open>front()\<close> of an empty vector
  and a remainder by zero are undefined behaviour; \<open>NeverReady\<close> is a future whose promise is
  never readied, so that its continuation never runs.
\<close>

datatype Status = OK | NotOK int

datatype failure = DBException int | InvariantFailure | UndefinedBehaviour | NeverReady

fun isOK :: "Status \<Rightarrow> bool" where
  "isOK OK = True"
| "isOK (NotOK c) = False"

datatype Stage = kStarted | kReachedCloningTS | kFinished | kErrorOccurred

record ReshardingSourceId =
  reshardingUUID :: UUID
  sourceShardId :: ShardId

text \<open>The members of \<^verbatim>\<open>ReshardingOplogApplier\<close> fixed by its constructor.\<close>

record ApplierConfig =
  sourceId :: ReshardingSourceId
  nsBeingResharded :: NamespaceString
  uuidBeingResharded :: UUID
  outputNs :: NamespaceString
  reshardingCloneFinishedTs :: Timestamp

text \<open>\<^verbatim>\<open>kReshardingOplogTag\<close>, the object \<^verbatim>\<open>{$resharding: 1}\<close>.\<close>

definition kReshardingOplogTag :: bson where
  "kReshardingOplogTag = BObj [(''$resharding'', BNumber 1)]"

subsection \<open>Preprocessing of a fetched entry\<close>

text \<open>
  \<^verbatim>\<open>_preProcessAndPushOpsToBuffer\<close>, on the buffer \<^verbatim>\<open>_currentBatchToApply\<close>. The two
  \<^verbatim>\<open>uassert\<close>s come first; \<^verbatim>\<open>_uuidBeingResharded == oplog.getUuid()\<close> compares a UUID with an
  optional UUID, so an entry without UUID fails it.
\<close>

definition preProcessAndPushOpsToBuffer ::
    "ApplierConfig \<Rightarrow> OplogEntry \<Rightarrow> OplogEntry list \<Rightarrow> failure + OplogEntry list" where
  "preProcessAndPushOpsToBuffer cfg oplog buf =
     (if nsBeingResharded cfg \<noteq> getNss oplog then Inl (DBException 5012002)
      else if Some (uuidBeingResharded cfg) \<noteq> getUuid oplog then Inl (DBException 5012005)
      else
        let newOplog = \<lparr>
              getEntry = \<lparr>
                opTime = opTime (getEntry oplog),
                hash = hash (getEntry oplog),
                opType = getOpType oplog,
                nss = outputNs cfg,
                uuid = None,
                fromMigrate = fromMigrate (getEntry oplog),
                version = version (getEntry oplog),
                object = getObject oplog,
                object2 = getObject2 oplog,
                sessionInfo = sessionInfo (getEntry oplog),
                upsert = upsert (getEntry oplog),
                wallClockTime = wallClockTime (getEntry oplog),
                statementId = getStatementId oplog,
                prevWriteOpTimeInTransaction = prevWriteOpTimeInTransaction (getEntry oplog),
                preImageOpTime = preImageOpTime (getEntry oplog),
                postImageOpTime = postImageOpTime (getEntry oplog),
                destinedRecipient = destinedRecipient (getEntry oplog),
                id_field = get_id oplog \<rparr>,
              getPreImageOp = getPreImageOp oplog,
              getPostImageOp = getPostImageOp oplog \<rparr>
        in Inr (buf @ [newOplog]))"

subsection \<open>Derivation of the shadow entry of a session write\<close>

text \<open>
  \<^verbatim>\<open>convertToNoOpWithReshardingTag\<close>. \<^verbatim>\<open>DurableOplogEntry::toBSON\<close> is generated from a
  declaration that is not part of the applier's file, so the serializer is the parameter
  \<open>toBSON\<close>.
\<close>

definition convertToNoOpWithReshardingTag ::
    "(DurableOplogEntry \<Rightarrow> bson) \<Rightarrow> OplogEntry \<Rightarrow> OplogEntry" where
  "convertToNoOpWithReshardingTag toBSON oplog =
     \<lparr> getEntry = \<lparr>
         opTime = opTime (getEntry oplog),
         hash = hash (getEntry oplog),
         opType = kNoop,
         nss = getNss oplog,
         uuid = None,
         fromMigrate = fromMigrate (getEntry oplog),
         version = version (getEntry oplog),
         object = kReshardingOplogTag,
         object2 = Some (toBSON (getEntry oplog)),
         sessionInfo = sessionInfo (getEntry oplog),
         upsert = upsert (getEntry oplog),
         wallClockTime = wallClockTime (getEntry oplog),
         statementId = getStatementId oplog,
         prevWriteOpTimeInTransaction = prevWriteOpTimeInTransaction (getEntry oplog),
         preImageOpTime = preImageOpTime (getEntry oplog),
         postImageOpTime = postImageOpTime (getEntry oplog),
         destinedRecipient = destinedRecipient (getEntry oplog),
         id_field = get_id oplog \<rparr>,
       getPreImageOp = getPreImageOp oplog,
       getPostImageOp = getPostImageOp oplog \<rparr>"

subsection \<open>Completion accounting of one batch\<close>

text \<open>
  The mutable members of \<^verbatim>\<open>ReshardingOplogApplier\<close>. The promise of the current batch is
  \<open>None\<close> until it is readied; \<open>Some OK\<close> stands for \<^verbatim>\<open>emplaceValue()\<close> and
  \<open>Some (NotOK c)\<close> for \<^verbatim>\<open>setError\<close>. The donor oplog iterator \<^verbatim>\<open>_oplogIter\<close> is the list
  of the results its next calls of \<^verbatim>\<open>getNextBatch\<close> give.
\<close>

record Applier =
  stage :: Stage
  currentBatchToApply :: "OplogEntry list"
  currentDerivedOps :: "OplogEntry list"
  currentWriterVectors :: "OplogEntry list list"
  remainingWritersToWait :: nat
  currentBatchConsolidatedStatus :: Status
  currentApplyBatchPromise :: "Status option"
  oplogIter :: "(failure + OplogEntry list) list"

text \<open>
  \<^verbatim>\<open>_onWriterVectorDone\<close>: under the mutex the counter is decremented, a non-OK status is
  stored, and the consolidated status is handed out when the counter is zero; the promise is
  readied after the mutex is released.
\<close>

definition onWriterVectorDone :: "Status \<Rightarrow> Applier \<Rightarrow> failure + Applier" where
  "onWriterVectorDone status a =
     (if \<not> remainingWritersToWait a > 0 then Inl InvariantFailure
      else
        let a1 = a\<lparr>remainingWritersToWait := remainingWritersToWait a - 1\<rparr>;
            a2 = (if \<not> isOK status then a1\<lparr>currentBatchConsolidatedStatus := status\<rparr> else a1);
            statusToReturn =
              (if remainingWritersToWait a2 = 0 then Some (currentBatchConsolidatedStatus a2)
               else None)
        in case statusToReturn of
             None \<Rightarrow> Inr a2
           | Some finalStatus \<Rightarrow> Inr (a2\<lparr>currentApplyBatchPromise := Some finalStatus\<rparr>))"

text \<open>The workers of one batch reporting one after the other, in the order of the list.\<close>

fun onWriterVectorsDone :: "Status list \<Rightarrow> Applier \<Rightarrow> failure + Applier" where
  "onWriterVectorsDone [] a = Inr a"
| "onWriterVectorsDone (status # rest) a =
     (case onWriterVectorDone status a of
        Inl e \<Rightarrow> Inl e
      | Inr a' \<Rightarrow> onWriterVectorsDone rest a')"

text \<open>The last non-OK status of a list of reports, \<open>c\<close> when every report is OK.\<close>

definition lastNotOK :: "Status \<Rightarrow> Status list \<Rightarrow> Status" where
  "lastNotOK c sts = (case filter (\<lambda>st. \<not> isOK st) sts of [] \<Rightarrow> c | e # es \<Rightarrow> last (e # es))"

text \<open>The first non-OK status of a list of reports, \<open>c\<close> when every report is OK.\<close>

definition firstNotOK :: "Status \<Rightarrow> Status list \<Rightarrow> Status" where
  "firstNotOK c sts = (case filter (\<lambda>st. \<not> isOK st) sts of [] \<Rightarrow> c | e # es \<Rightarrow> e)"

subsection \<open>Sample values\<close>

definition sampleToBSON :: "DurableOplogEntry \<Rightarrow> bson" where
  "sampleToBSON e =
     BObj [(''ts'', BTimestamp (opTimestamp (opTime e))),
           (''ns'', BString (db (nss e) @ ''.'' @ coll (nss e))),
           (''o'', object e)]"

definition sampleConfig :: ApplierConfig where
  "sampleConfig = \<lparr>
     sourceId = \<lparr> reshardingUUID = 7, sourceShardId = ''shard0'' \<rparr>,
     nsBeingResharded = NamespaceString ''test'' ''coll'',
     uuidBeingResharded = 42,
     outputNs = NamespaceString ''test'' ''system.resharding.42'',
     reshardingCloneFinishedTs = 100 \<rparr>"

definition sampleDurable ::
    "OpTypeEnum \<Rightarrow> Timestamp \<Rightarrow> LogicalSessionId option \<Rightarrow> TxnNumber option \<Rightarrow> StmtId option
      \<Rightarrow> DurableOplogEntry" where
  "sampleDurable ty t sid txn stmt = \<lparr>
     opTime = \<lparr> opTimestamp = t, opTerm = 1 \<rparr>,
     hash = None,
     opType = ty,
     nss = NamespaceString ''test'' ''coll'',
     uuid = Some 42,
     fromMigrate = None,
     version = 2,
     object = BObj [(''_id'', BNumber (int t))],
     object2 = None,
     sessionInfo = \<lparr> infoSessionId = sid, infoTxnNumber = txn \<rparr>,
     upsert = None,
     wallClockTime = 0,
     statementId = stmt,
     prevWriteOpTimeInTransaction = None,
     preImageOpTime = None,
     postImageOpTime = None,
     destinedRecipient = Some ''shard1'',
     id_field = Some (BObj [(''clusterTime'', BTimestamp t), (''ts'', BTimestamp t)]) \<rparr>"

definition sampleOp ::
    "OpTypeEnum \<Rightarrow> Timestamp \<Rightarrow> LogicalSessionId option \<Rightarrow> TxnNumber option \<Rightarrow> StmtId option
      \<Rightarrow> OplogEntry" where
  "sampleOp ty t sid txn stmt =
     \<lparr> getEntry = sampleDurable ty t sid txn stmt, getPreImageOp = None, getPostImageOp = None \<rparr>"

definition sessionS :: LogicalSessionId where
  "sessionS = LogicalSessionId 1 0"

definition sessionT :: LogicalSessionId where
  "sessionT = LogicalSessionId 2 0"

text \<open>
  An applier as its constructor leaves it: stage \<^verbatim>\<open>kStarted\<close>, empty buffers, no writer
  outstanding.
\<close>

definition initialApplier :: Applier where
  "initialApplier = \<lparr>
     stage = kStarted,
     currentBatchToApply = [],
     currentDerivedOps = [],
     currentWriterVectors = [],
     remainingWritersToWait = 0,
     currentBatchConsolidatedStatus = OK,
     currentApplyBatchPromise = None,
     oplogIter = [] \<rparr>"

subsection \<open>Partitioning a batch into writer vectors\<close>

text \<open>
  What \<^verbatim>\<open>_fillWriterVectors\<close> takes from declarations outside the applier's file: the size of
  the writer pool, \<^verbatim>\<open>LogicalSessionIdHash\<close>, the hash of a namespace used by the apply
  primitive, \<^verbatim>\<open>OplogEntry::shouldPrepare\<close> and \<^verbatim>\<open>OplogEntry::isPreparedCommit\<close>, the
  serializer of a durable entry, and the transaction number of a default-constructed
  \<^verbatim>\<open>RetryableOpsList\<close>. The record also holds what the rest of the applier takes from
  outside: the parser \<^verbatim>\<open>ReshardingDonorOplogId::parse\<close> (its result kept as the document
  \<^verbatim>\<open>toBSON()\<close> gives for it), the status a writer of the pool reports for a non-empty slot
  (the scheduling failure, or the result of \<^verbatim>\<open>_applyOplogBatchPerWorker\<close>), and the order in
  which the slots of a batch report. \<open>sessionIterationRank\<close> stands for the order in which
  the hash map \<^verbatim>\<open>LogicalSessionIdMap\<close> is iterated, which the code does not fix: the sessions
  of the map are visited by ascending rank. The sessions of a map are distinct, so every order
  of iteration is the one of some rank.
\<close>

record Env =
  numThreads :: nat
  lsidHash :: "LogicalSessionId \<Rightarrow> nat"
  nssHash :: "NamespaceString \<Rightarrow> nat"
  entryShouldPrepare :: "OplogEntry \<Rightarrow> bool"
  entryIsPreparedCommit :: "OplogEntry \<Rightarrow> bool"
  entryToBSON :: "DurableOplogEntry \<Rightarrow> bson"
  kUninitializedTxnNumber :: TxnNumber
  parseDonorOplogId :: "bson \<Rightarrow> failure + bson"
  writerStatus :: "OplogEntry list \<Rightarrow> Status"
  completionOrder :: "OplogEntry list list \<Rightarrow> OplogEntry list list"
  sessionIterationRank :: "LogicalSessionId \<Rightarrow> nat"

text \<open>
  Modelled from the spec: \<^verbatim>\<open>repl::OplogApplierUtils::addToWriterVector\<close> is called by
  \<^verbatim>\<open>_fillWriterVectors\<close> and is not part of the applier's file. The specification routes a
  record that carries a session identity by a stable hash of the session identity modulo the
  slot count, and a record without one by the per-namespace rule of the apply primitive; the
  record is appended to the slot chosen. A remainder by a slot count of zero is undefined.
\<close>

definition addToWriterVector ::
    "Env \<Rightarrow> OplogEntry \<Rightarrow> OplogEntry list list \<Rightarrow> failure + OplogEntry list list" where
  "addToWriterVector env op writerVectors =
     (if length writerVectors = 0 then Inl UndefinedBehaviour
      else
        let writerId = (case getSessionId op of
                          Some sid \<Rightarrow> lsidHash env sid mod length writerVectors
                        | None \<Rightarrow> nssHash env (getNss op) mod length writerVectors)
        in Inr (writerVectors[writerId := writerVectors ! writerId @ [op]]))"

text \<open>
  \<^verbatim>\<open>addDerivedOpsToWriterVector\<close>: the \<^verbatim>\<open>invariant\<close> on the tag, the \<^verbatim>\<open>uassert\<close> on the session
  id, then the slot \<^verbatim>\<open>hasher(*op.getSessionId()) % writerVectors->size()\<close>.
\<close>

fun addDerivedOpsToWriterVector ::
    "Env \<Rightarrow> OplogEntry list list \<Rightarrow> OplogEntry list \<Rightarrow> failure + OplogEntry list list" where
  "addDerivedOpsToWriterVector env writerVectors [] = Inr writerVectors"
| "addDerivedOpsToWriterVector env writerVectors (op # derivedOps) =
     (if getObject op \<noteq> kReshardingOplogTag then Inl InvariantFailure
      else case getSessionId op of
        None \<Rightarrow> Inl (DBException 4990403)
      | Some sid \<Rightarrow>
          if length writerVectors = 0 then Inl UndefinedBehaviour
          else
            let writerId = lsidHash env sid mod length writerVectors
            in addDerivedOpsToWriterVector env
                 (writerVectors[writerId := writerVectors ! writerId @ [op]]) derivedOps)"

text \<open>
  \<^verbatim>\<open>RetryableOpsList\<close> and the session tracker. \<^verbatim>\<open>LogicalSessionIdMap\<close> is a hash map: the
  model stores one entry per session, and the order of the entries in the list plays no part
  in what the map holds. The order in which the map is iterated is the environment's
  (\<open>sessionIterationRank\<close>).
\<close>

record RetryableOpsList =
  txnNum :: TxnNumber
  ops :: "OplogEntry list"

type_synonym SessionTracker = "(LogicalSessionId \<times> RetryableOpsList) list"

text \<open>\<^verbatim>\<open>sessionTracker[sid]\<close>: the list tracked for the session, a default one when there is none.\<close>

definition trackedOps :: "Env \<Rightarrow> SessionTracker \<Rightarrow> LogicalSessionId \<Rightarrow> RetryableOpsList" where
  "trackedOps env sessionTracker sid =
     (case map_of sessionTracker sid of
        None \<Rightarrow> \<lparr> txnNum = kUninitializedTxnNumber env, ops = [] \<rparr>
      | Some retryableOpList \<Rightarrow> retryableOpList)"

fun storeTracked ::
    "LogicalSessionId \<Rightarrow> RetryableOpsList \<Rightarrow> SessionTracker \<Rightarrow> SessionTracker" where
  "storeTracked sid l [] = [(sid, l)]"
| "storeTracked sid l ((k, v) # rest) =
     (if k = sid then (sid, l) # rest else (k, v) # storeTracked sid l rest)"

text \<open>
  The session bookkeeping of one record in the loop of \<^verbatim>\<open>_fillWriterVectors\<close>.
  \<^verbatim>\<open>*op.getTxnNumber()\<close> on a record without transaction number, and
  \<^verbatim>\<open>retryableOpList.ops.front()\<close> on an empty list while the message of 4990401 is built,
  are undefined.
\<close>

definition trackSessionOp :: "Env \<Rightarrow> OplogEntry \<Rightarrow> SessionTracker \<Rightarrow> failure + SessionTracker" where
  "trackSessionOp env op sessionTracker =
     (case getSessionId op of
        None \<Rightarrow> Inr sessionTracker
      | Some sid \<Rightarrow>
          let retryableOpList = trackedOps env sessionTracker sid in
          case getTxnNumber op of
            None \<Rightarrow> Inl UndefinedBehaviour
          | Some txnNumber \<Rightarrow>
              if txnNum retryableOpList = txnNumber then
                Inr (storeTracked sid
                       (retryableOpList\<lparr>ops := ops retryableOpList @ [op]\<rparr>) sessionTracker)
              else if txnNum retryableOpList < txnNumber then
                Inr (storeTracked sid \<lparr> txnNum = txnNumber, ops = [op] \<rparr> sessionTracker)
              else if ops retryableOpList = [] then Inl UndefinedBehaviour
              else Inl (DBException 4990401))"

text \<open>The first loop of \<^verbatim>\<open>_fillWriterVectors\<close>, over the batch.\<close>

fun fillLoop ::
    "Env \<Rightarrow> OplogEntry list \<Rightarrow> OplogEntry list list \<times> SessionTracker
      \<Rightarrow> failure + OplogEntry list list \<times> SessionTracker" where
  "fillLoop env [] st = Inr st"
| "fillLoop env (op # batch) (writerVectors, sessionTracker) =
     (if entryShouldPrepare env op then Inl (DBException 5012000)
      else if entryIsPreparedCommit env op then Inl (DBException 5012001)
      else if getOpType op = kNoop then fillLoop env batch (writerVectors, sessionTracker)
      else case addToWriterVector env op writerVectors of
        Inl e \<Rightarrow> Inl e
      | Inr writerVectors' \<Rightarrow>
          (case trackSessionOp env op sessionTracker of
             Inl e \<Rightarrow> Inl e
           | Inr sessionTracker' \<Rightarrow> fillLoop env batch (writerVectors', sessionTracker')))"

text \<open>
  The second loop: one shadow entry per tracked record, session by session in the order in
  which the map is iterated, the records of a session in the order of its list.
\<close>

definition deriveOps :: "Env \<Rightarrow> SessionTracker \<Rightarrow> OplogEntry list" where
  "deriveOps env sessionTracker =
     concat (map (\<lambda>sessionsToUpdate.
                    map (convertToNoOpWithReshardingTag (entryToBSON env))
                        (ops (snd sessionsToUpdate)))
                 (sort_key (\<lambda>sessionsToUpdate. sessionIterationRank env (fst sessionsToUpdate))
                    sessionTracker))"

text \<open>
  \<^verbatim>\<open>_fillWriterVectors\<close>. The function extends the buffer of derived entries in place, so
  the result is the writer vectors, or the failure, together with the contents of that buffer
  when the function is left.
\<close>

definition fillWriterVectors ::
    "Env \<Rightarrow> OplogEntry list \<Rightarrow> OplogEntry list
      \<Rightarrow> (failure + OplogEntry list list) \<times> OplogEntry list" where
  "fillWriterVectors env batch derivedOps =
     (case fillLoop env batch (replicate (numThreads env) [], []) of
        Inl e \<Rightarrow> (Inl e, derivedOps)
      | Inr (writerVectors, sessionTracker) \<Rightarrow>
          let derivedOps' = derivedOps @ deriveOps env sessionTracker
          in (addDerivedOpsToWriterVector env writerVectors derivedOps', derivedOps'))"

definition sampleEnv :: Env where
  "sampleEnv = \<lparr>
     numThreads = 2,
     lsidHash = (\<lambda>sid. lsidId sid),
     nssHash = (\<lambda>ns. length (coll ns)),
     entryShouldPrepare = (\<lambda>op. getOpType op = kCommand
                                 \<and> getObject op = BObj [(''applyOps'', BObj []), (''prepare'', BNumber 1)]),
     entryIsPreparedCommit = (\<lambda>op. getOpType op = kCommand
                                 \<and> getObject op = BObj [(''commitTransaction'', BNumber 1)]),
     entryToBSON = sampleToBSON,
     kUninitializedTxnNumber = - 1,
     parseDonorOplogId = (\<lambda>v. case v of
                            BObj [(''clusterTime'', BTimestamp c), (''ts'', BTimestamp t)] \<Rightarrow> Inr v
                          | _ \<Rightarrow> Inl (DBException 40414)),
     writerStatus = (\<lambda>slot. if list_all (\<lambda>op. getOpType op \<noteq> kDelete) slot then OK
                             else NotOK 11000),
     completionOrder = rev,
     sessionIterationRank = (\<lambda>sid. 2 - lsidId sid) \<rparr>"

definition samplePrepare :: OplogEntry where
  "samplePrepare =
     \<lparr> getEntry = (sampleDurable kCommand 6 (Some sessionS) (Some 1) None)
         \<lparr>object := BObj [(''applyOps'', BObj []), (''prepare'', BNumber 1)]\<rparr>,
       getPreImageOp = None, getPostImageOp = None \<rparr>"

definition sampleCommit :: OplogEntry where
  "sampleCommit =
     \<lparr> getEntry = (sampleDurable kCommand 7 (Some sessionS) (Some 1) None)
         \<lparr>object := BObj [(''commitTransaction'', BNumber 1)]\<rparr>,
       getPreImageOp = None, getPostImageOp = None \<rparr>"

subsection \<open>Notions used in the statements\<close>

text \<open>The slot of a session: the hash of the session identity modulo the number of writers.\<close>

abbreviation slotOf :: "Env \<Rightarrow> LogicalSessionId \<Rightarrow> nat" where
  "slotOf env sid \<equiv> lsidHash env sid mod numThreads env"

text \<open>Every record of a slot that carries a session identity is in the slot of its session.\<close>

abbreviation routedBySession :: "Env \<Rightarrow> OplogEntry list list \<Rightarrow> bool" where
  "routedBySession env wv \<equiv>
     (\<forall>i<length wv. \<forall>op\<in>set (wv ! i). \<forall>sid. getSessionId op = Some sid \<longrightarrow> i = slotOf env sid)"

text \<open>
  Every record tracked for a session carries that session's identity, is no no-op, and is
  one of the records \<open>S\<close>.
\<close>

abbreviation trackedFrom :: "SessionTracker \<Rightarrow> OplogEntry set \<Rightarrow> bool" where
  "trackedFrom tr S \<equiv>
     (\<forall>sid l x. (sid, l) \<in> set tr \<and> x \<in> set (ops l) \<longrightarrow>
        getSessionId x = Some sid \<and> getOpType x \<noteq> kNoop \<and> x \<in> S)"

subsection \<open>The progress store\<close>

text \<open>
  A document of the progress collection, \<^verbatim>\<open>ReshardingOplogApplierProgress\<close>: the identity of
  the stream and the id of the last donor oplog entry applied.
\<close>

record ReshardingOplogApplierProgress =
  oplogSourceId :: ReshardingSourceId
  progress :: bson

type_synonym ProgressCollection = "ReshardingOplogApplierProgress list"

text \<open>
  Modelled from the spec: \<^verbatim>\<open>PersistentTaskStore::upsert\<close> with the query on the source id and
  \<^verbatim>\<open>$set\<close> of the progress field is not part of the applier's file. The specification has it
  as the upsert of a key/value store keyed by the stream's identity: the first document of the
  stream gets the new progress, and a document is inserted when the stream has none.
\<close>

fun upsertProgress ::
    "ReshardingSourceId \<Rightarrow> bson \<Rightarrow> ProgressCollection \<Rightarrow> ProgressCollection" where
  "upsertProgress sid oplogId [] = [\<lparr> oplogSourceId = sid, progress = oplogId \<rparr>]"
| "upsertProgress sid oplogId (doc # docs) =
     (if oplogSourceId doc = sid then doc\<lparr>progress := oplogId\<rparr> # docs
      else doc # upsertProgress sid oplogId docs)"

text \<open>
  Modelled from the spec: \<^verbatim>\<open>DBDirectClient::findOne\<close> with the query on the source id is not
  part of the applier's file. The specification has it as the read of the same store: the
  first document of the stream, nothing when there is none.
\<close>

definition findOneProgress ::
    "ProgressCollection \<Rightarrow> ReshardingSourceId \<Rightarrow> ReshardingOplogApplierProgress option" where
  "findOneProgress docs sid = find (\<lambda>doc. oplogSourceId doc = sid) docs"

text \<open>\<^verbatim>\<open>checkStoredProgress\<close>: an empty result of \<^verbatim>\<open>findOne\<close> gives \<^verbatim>\<open>boost::none\<close>.\<close>

definition checkStoredProgress ::
    "ProgressCollection \<Rightarrow> ReshardingSourceId \<Rightarrow> ReshardingOplogApplierProgress option" where
  "checkStoredProgress docs sid =
     (case findOneProgress docs sid of
        None \<Rightarrow> None
      | Some doc \<Rightarrow> Some doc)"

text \<open>
  \<^verbatim>\<open>_clearAppliedOpsAndStoreProgress\<close>, on the applier and the progress collection. The result
  is the timestamp of the last entry of the batch.
\<close>

definition clearAppliedOpsAndStoreProgress ::
    "Env \<Rightarrow> ApplierConfig \<Rightarrow> Applier \<times> ProgressCollection
      \<Rightarrow> (failure + Timestamp) \<times> Applier \<times> ProgressCollection" where
  "clearAppliedOpsAndStoreProgress env cfg st =
     (case st of (a, docs) \<Rightarrow>
        if currentBatchToApply a = [] then (Inl UndefinedBehaviour, a, docs)
        else
          let lastOplog = last (currentBatchToApply a) in
          case get_id lastOplog of
            None \<Rightarrow> (Inl UndefinedBehaviour, a, docs)
          | Some v \<Rightarrow>
              (case parseDonorOplogId env v of
                 Inl e \<Rightarrow> (Inl e, a, docs)
               | Inr oplogId \<Rightarrow>
                   let lastAppliedTs = getTimestamp lastOplog;
                       docs' = upsertProgress (sourceId cfg) oplogId docs;
                       a' = a\<lparr>currentBatchToApply := [], currentDerivedOps := []\<rparr>
                   in (Inr lastAppliedTs, a', docs')))"

subsection \<open>The batch pipeline\<close>

text \<open>\<^verbatim>\<open>_oplogIter->getNextBatch\<close>: an exhausted iterator gives the empty batch.\<close>

definition getNextBatch :: "Applier \<Rightarrow> (failure + OplogEntry list) \<times> Applier" where
  "getNextBatch a =
     (case oplogIter a of
        [] \<Rightarrow> (Inr [], a)
      | r # rest \<Rightarrow> (r, a\<lparr>oplogIter := rest\<rparr>))"

text \<open>
  The loop over the fetched batch in \<^verbatim>\<open>_scheduleNextBatch\<close>. An exception leaves the entries
  pushed before it in the buffer.
\<close>

fun preProcessBatch ::
    "ApplierConfig \<Rightarrow> OplogEntry list \<Rightarrow> Applier \<Rightarrow> (failure + unit) \<times> Applier" where
  "preProcessBatch cfg [] a = (Inr (), a)"
| "preProcessBatch cfg (entry # batch) a =
     (case preProcessAndPushOpsToBuffer cfg entry (currentBatchToApply a) of
        Inl e \<Rightarrow> (Inl e, a)
      | Inr buf \<Rightarrow> preProcessBatch cfg batch (a\<lparr>currentBatchToApply := buf\<rparr>))"

text \<open>
  \<^verbatim>\<open>_applyBatch\<close> together with the wait for its future. Every slot reports once: an empty
  slot OK, a non-empty one the status of its writer. The reports come in the order the
  environment gives. The future carries the status the promise was readied with.
\<close>

definition applyBatch :: "Env \<Rightarrow> Applier \<Rightarrow> (failure + unit) \<times> Applier" where
  "applyBatch env a =
     (case fillWriterVectors env (currentBatchToApply a) (currentDerivedOps a) of
        (Inl e, derivedOps) \<Rightarrow> (Inl e, a\<lparr>currentDerivedOps := derivedOps\<rparr>)
      | (Inr writerVectors, derivedOps) \<Rightarrow>
          let a1 = a\<lparr>currentDerivedOps := derivedOps,
                     currentWriterVectors := writerVectors,
                     currentApplyBatchPromise := None,
                     remainingWritersToWait := length writerVectors,
                     currentBatchConsolidatedStatus := OK\<rparr>;
              reports = map (\<lambda>writer. if writer = [] then OK else writerStatus env writer)
                            (completionOrder env writerVectors)
          in case onWriterVectorsDone reports a1 of
               Inl e \<Rightarrow> (Inl e, a1)
             | Inr a2 \<Rightarrow>
                 (case currentApplyBatchPromise a2 of
                    None \<Rightarrow> (Inl NeverReady, a2)
                  | Some OK \<Rightarrow> (Inr (), a2)
                  | Some (NotOK c) \<Rightarrow> (Inl (DBException c), a2)))"

text \<open>
  The continuation of \<^verbatim>\<open>_scheduleNextBatch\<close> after a batch has been applied; its result says
  whether there is more to apply.
\<close>

definition afterApply ::
    "Env \<Rightarrow> ApplierConfig \<Rightarrow> Applier \<times> ProgressCollection
      \<Rightarrow> (failure + bool) \<times> Applier \<times> ProgressCollection" where
  "afterApply env cfg st =
     (case st of (a, docs) \<Rightarrow>
        if currentBatchToApply a = [] then
          (Inr False,
           (if stage a = kStarted then a\<lparr>stage := kReachedCloningTS\<rparr>
            else if stage a = kReachedCloningTS then a\<lparr>stage := kFinished\<rparr>
            else a),
           docs)
        else
          case clearAppliedOpsAndStoreProgress env cfg (a, docs) of
            (Inl e, st') \<Rightarrow> (Inl e, st')
          | (Inr lastAppliedTs, a', docs') \<Rightarrow>
              if stage a' = kStarted \<and> lastAppliedTs \<ge> reshardingCloneFinishedTs cfg then
                (Inr False, a'\<lparr>stage := kReachedCloningTS\<rparr>, docs')
              else (Inr True, a', docs'))"

text \<open>One round of \<^verbatim>\<open>_scheduleNextBatch\<close>: fetch, preprocess, apply, continue.\<close>

definition runBatch ::
    "Env \<Rightarrow> ApplierConfig \<Rightarrow> Applier \<times> ProgressCollection
      \<Rightarrow> (failure + bool) \<times> Applier \<times> ProgressCollection" where
  "runBatch env cfg st =
     (case st of (a, docs) \<Rightarrow>
        case getNextBatch a of
          (Inl e, a1) \<Rightarrow> (Inl e, a1, docs)
        | (Inr batch, a1) \<Rightarrow>
            (case preProcessBatch cfg batch a1 of
               (Inl e, a2) \<Rightarrow> (Inl e, a2, docs)
             | (Inr u, a2) \<Rightarrow>
                 (case applyBatch env a2 of
                    (Inl e, a3) \<Rightarrow> (Inl e, a3, docs)
                  | (Inr u', a3) \<Rightarrow> afterApply env cfg (a3, docs))))"

subsection \<open>The loop over the batches\<close>

text \<open>
  \<^verbatim>\<open>_scheduleNextBatch\<close> calls itself while there is more to apply. Each round either takes
  a result from the iterator or, with the iterator exhausted, empties a buffer that was not
  empty, which bounds the number of rounds.
\<close>

definition pipelineMeasure :: "Applier \<times> ProgressCollection \<Rightarrow> nat" where
  "pipelineMeasure st =
     2 * length (oplogIter (fst st)) + (if currentBatchToApply (fst st) = [] then 0 else 1)"

lemma onWriterVectorDone_frame:
  "onWriterVectorDone status a = Inr a' \<Longrightarrow>
   oplogIter a' = oplogIter a \<and> currentBatchToApply a' = currentBatchToApply a
   \<and> currentDerivedOps a' = currentDerivedOps a \<and> stage a' = stage a
   \<and> currentWriterVectors a' = currentWriterVectors a"
  by (auto simp: onWriterVectorDone_def Let_def split: if_splits)

lemma onWriterVectorsDone_frame:
  "onWriterVectorsDone sts a = Inr a' \<Longrightarrow>
   oplogIter a' = oplogIter a \<and> currentBatchToApply a' = currentBatchToApply a
   \<and> currentDerivedOps a' = currentDerivedOps a \<and> stage a' = stage a
   \<and> currentWriterVectors a' = currentWriterVectors a"
proof (induction sts arbitrary: a)
  case Nil
  then show ?case by simp
next
  case (Cons st sts)
  from Cons.prems obtain a1 where s: "onWriterVectorDone st a = Inr a1"
    and r: "onWriterVectorsDone sts a1 = Inr a'"
    by (auto split: sum.splits)
  from Cons.IH [OF r] onWriterVectorDone_frame [OF s] show ?case by simp
qed

lemma applyBatch_frame:
  "applyBatch env a = (r, a') \<Longrightarrow>
   oplogIter a' = oplogIter a \<and> currentBatchToApply a' = currentBatchToApply a
   \<and> stage a' = stage a"
  by (auto simp: applyBatch_def Let_def split: prod.splits sum.splits option.splits Status.splits
      dest: onWriterVectorsDone_frame)

lemma preProcessBatch_frame:
  "preProcessBatch cfg batch a = (r, a') \<Longrightarrow> oplogIter a' = oplogIter a \<and> stage a' = stage a"
  by (induction batch arbitrary: a) (auto split: sum.splits)

lemma preProcessBatch_Nil_buffer:
  "preProcessBatch cfg [] a = (r, a') \<Longrightarrow> a' = a"
  by simp

lemma runBatch_decreases:
  assumes "runBatch env cfg st = (Inr True, st')"
  shows "pipelineMeasure st' < pipelineMeasure st"
proof -
  obtain a docs where st: "st = (a, docs)" by (cases st)
  from assms obtain batch a1 a2 a3 u u'
    where f: "getNextBatch a = (Inr batch, a1)"
      and p: "preProcessBatch cfg batch a1 = (Inr u, a2)"
      and ap: "applyBatch env a2 = (Inr u', a3)"
      and af: "afterApply env cfg (a3, docs) = (Inr True, st')"
    by (auto simp: runBatch_def st split: prod.splits sum.splits)
  from af obtain ts a4 docs' where ne: "currentBatchToApply a3 \<noteq> []"
    and cl: "clearAppliedOpsAndStoreProgress env cfg (a3, docs) = (Inr ts, a4, docs')"
    and st': "st' = (a4, docs')"
    by (auto simp: afterApply_def split: if_splits prod.splits sum.splits)
  from cl have a4: "currentBatchToApply a4 = []" "oplogIter a4 = oplogIter a3"
    by (auto simp: clearAppliedOpsAndStoreProgress_def Let_def
        split: if_splits option.splits sum.splits)
  from applyBatch_frame [OF ap] have a3: "oplogIter a3 = oplogIter a2"
    "currentBatchToApply a3 = currentBatchToApply a2" by simp_all
  from preProcessBatch_frame [OF p] have a2: "oplogIter a2 = oplogIter a1" by simp
  show ?thesis
  proof (cases "oplogIter a")
    case Nil
    with f have "batch = []" "a1 = a" by (simp_all add: getNextBatch_def)
    with p have "a2 = a" by simp
    with a3 ne have "currentBatchToApply a \<noteq> []" by simp
    with a4 a3 a2 \<open>a1 = a\<close> show ?thesis
      by (simp add: pipelineMeasure_def st st')
  next
    case (Cons r rest)
    with f have "oplogIter a1 = rest" by (auto simp: getNextBatch_def)
    with a4 a3 a2 Cons show ?thesis
      by (simp add: pipelineMeasure_def st st')
  qed
qed

text \<open>\<^verbatim>\<open>_scheduleNextBatch\<close>.\<close>

function scheduleNextBatch ::
    "Env \<Rightarrow> ApplierConfig \<Rightarrow> Applier \<times> ProgressCollection
      \<Rightarrow> (failure + unit) \<times> Applier \<times> ProgressCollection" where
  "scheduleNextBatch env cfg st =
     (case runBatch env cfg st of
        (Inl e, st') \<Rightarrow> (Inl e, st')
      | (Inr moreToApply, st') \<Rightarrow>
          if \<not> moreToApply then (Inr (), st')
          else scheduleNextBatch env cfg st')"
  by pat_completeness auto
termination
proof (relation "measure (\<lambda>(env, cfg, st). pipelineMeasure st)")
  show "wf (measure (\<lambda>(env, cfg, st). pipelineMeasure st))" by simp
next
  fix env cfg st x st' moreToApply
  assume "(x, st') = runBatch env cfg st" "x = Inr moreToApply" "\<not> \<not> moreToApply"
  then have "runBatch env cfg st = (Inr True, st')" by simp
  from runBatch_decreases [OF this]
  show "((env, cfg, st'), (env, cfg, st)) \<in> measure (\<lambda>(env, cfg, st). pipelineMeasure st)"
    by simp
qed

text \<open>\<^verbatim>\<open>_onError\<close>.\<close>

definition onError :: "Status \<Rightarrow> Applier \<Rightarrow> Status \<times> Applier" where
  "onError status a = (status, a\<lparr>stage := kErrorOccurred\<rparr>)"

text \<open>
  \<^verbatim>\<open>.onError([this](Status status) { return _onError(status); })\<close>: the callback runs when
  the chain before it ended with an error status, and its result is the status of the chain.
\<close>

definition withOnError ::
    "(failure + unit) \<times> Applier \<times> ProgressCollection
      \<Rightarrow> (failure + unit) \<times> Applier \<times> ProgressCollection" where
  "withOnError r =
     (case r of
        (Inl (DBException c), a, docs) \<Rightarrow>
          (case onError (NotOK c) a of
             (OK, a') \<Rightarrow> (Inr (), a', docs)
           | (NotOK c', a') \<Rightarrow> (Inl (DBException c'), a', docs))
      | (Inl InvariantFailure, a, docs) \<Rightarrow> r
      | (Inl UndefinedBehaviour, a, docs) \<Rightarrow> r
      | (Inl NeverReady, a, docs) \<Rightarrow> r
      | (Inr u, a, docs) \<Rightarrow> r)"

text \<open>\<^verbatim>\<open>applyUntilCloneFinishedTs\<close> and \<^verbatim>\<open>applyUntilDone\<close>.\<close>

definition applyUntilCloneFinishedTs ::
    "Env \<Rightarrow> ApplierConfig \<Rightarrow> Applier \<times> ProgressCollection
      \<Rightarrow> (failure + unit) \<times> Applier \<times> ProgressCollection" where
  "applyUntilCloneFinishedTs env cfg st =
     (if stage (fst st) \<noteq> kStarted then (Inl InvariantFailure, st)
      else withOnError (scheduleNextBatch env cfg st))"

definition applyUntilDone ::
    "Env \<Rightarrow> ApplierConfig \<Rightarrow> Applier \<times> ProgressCollection
      \<Rightarrow> (failure + unit) \<times> Applier \<times> ProgressCollection" where
  "applyUntilDone env cfg st =
     (if stage (fst st) \<noteq> kReachedCloningTS then (Inl InvariantFailure, st)
      else withOnError (scheduleNextBatch env cfg st))"


definition sampleDelete :: OplogEntry where
  "sampleDelete = sampleOp kDelete 5 None None None"

definition sampleDeleteBuffered :: OplogEntry where
  "sampleDeleteBuffered =
     sampleDelete\<lparr>getEntry := (getEntry sampleDelete)
       \<lparr>nss := NamespaceString ''test'' ''system.resharding.42'', uuid := None\<rparr>\<rparr>"

subsection \<open>Applying a shadow entry of a retryable write\<close>

text \<open>
  Modelled from the spec: \<^verbatim>\<open>TransactionParticipant\<close>, the session catalog and \<^verbatim>\<open>repl::logOp\<close>
  are not part of the applier's file. The specification gives the session bookkeeping as
  three capabilities: begin or resume the bookkeeping of a session and transaction number,
  ask whether a statement position is already recorded as executed, and record the
  completion of a statement together with the position of the last write. The state kept
  for a session is the active transaction number, the statements recorded as executed, and
  the op time of the last write; the two flags stand for the conditions under which the
  handler's \<^verbatim>\<open>catch\<close> clauses are entered (a truncated transaction history, a prepared
  transaction in progress on the session).
\<close>

record TxnParticipantState =
  activeTxnNumber :: TxnNumber
  committedStatements :: "StmtId list"
  lastWriteOpTime :: OpTime
  hasIncompleteHistory :: bool
  preparedTxnInProgress :: bool

text \<open>
  The node the entries are applied on: the session catalog, the node's own oplog as
  \<^verbatim>\<open>logOp\<close> writes it, and the timestamp and term from which \<^verbatim>\<open>logOp\<close> takes the next op time.
\<close>

record Node =
  sessionCatalog :: "(LogicalSessionId \<times> TxnParticipantState) list"
  localOplog :: "DurableOplogEntry list"
  lastOpTimestamp :: Timestamp
  replTerm :: int

datatype ParticipantError =
  TransactionTooOld | IncompleteTransactionHistory | PreparedTransactionInProgress

definition nullOpTime :: OpTime where
  "nullOpTime = \<lparr> opTimestamp = 0, opTerm = - 1 \<rparr>"

definition isNull :: "OpTime \<Rightarrow> bool" where
  "isNull t \<longleftrightarrow> opTimestamp t = 0"

text \<open>The participant of a checked-out session; a session not seen before starts blank.\<close>

definition participantOf :: "Env \<Rightarrow> Node \<Rightarrow> LogicalSessionId \<Rightarrow> TxnParticipantState" where
  "participantOf env node sid =
     (case map_of (sessionCatalog node) sid of
        None \<Rightarrow> \<lparr> activeTxnNumber = kUninitializedTxnNumber env, committedStatements = [],
                  lastWriteOpTime = nullOpTime, hasIncompleteHistory = False,
                  preparedTxnInProgress = False \<rparr>
      | Some p \<Rightarrow> p)"

fun storeParticipant ::
    "LogicalSessionId \<Rightarrow> TxnParticipantState \<Rightarrow> (LogicalSessionId \<times> TxnParticipantState) list
      \<Rightarrow> (LogicalSessionId \<times> TxnParticipantState) list" where
  "storeParticipant sid p [] = [(sid, p)]"
| "storeParticipant sid p ((k, v) # rest) =
     (if k = sid then (sid, p) # rest else (k, v) # storeParticipant sid p rest)"

text \<open>
  Modelled from the spec: \<^verbatim>\<open>beginOrContinue\<close> for a retryable write. An older transaction
  number is refused, a prepared transaction on the session blocks, the active number resumes
  without change, a newer number begins afresh with nothing recorded as executed.
\<close>

definition beginOrContinue ::
    "Env \<Rightarrow> Node \<Rightarrow> LogicalSessionId \<Rightarrow> TxnNumber \<Rightarrow> ParticipantError + Node" where
  "beginOrContinue env node sid txnNumber =
     (let p = participantOf env node sid in
      if txnNumber < activeTxnNumber p then Inl TransactionTooOld
      else if preparedTxnInProgress p then Inl PreparedTransactionInProgress
      else if txnNumber = activeTxnNumber p then Inr node
      else Inr (node\<lparr>sessionCatalog :=
                  storeParticipant sid
                    (p\<lparr>activeTxnNumber := txnNumber, committedStatements := [],
                       lastWriteOpTime := nullOpTime\<rparr>)
                    (sessionCatalog node)\<rparr>))"

text \<open>
  Modelled from the spec: \<^verbatim>\<open>checkStatementExecuted\<close>. A statement recorded as executed is
  found; one that is not found cannot be decided when the history is truncated.
\<close>

definition checkStatementExecuted ::
    "Env \<Rightarrow> Node \<Rightarrow> LogicalSessionId \<Rightarrow> StmtId \<Rightarrow> ParticipantError + bool" where
  "checkStatementExecuted env node sid stmtId =
     (let p = participantOf env node sid in
      if stmtId \<in> set (committedStatements p) then Inr True
      else if hasIncompleteHistory p then Inl IncompleteTransactionHistory
      else Inr False)"

text \<open>
  Modelled from the spec: \<^verbatim>\<open>onRetryableWriteCloningCompleted\<close> records the statements as
  executed and the op time of the last write. Of the \<^verbatim>\<open>SessionTxnRecord\<close> the handler passes,
  the session id, the transaction number and the op time of the last write are kept; the date
  of the last write is not.
\<close>

definition onRetryableWriteCloningCompleted ::
    "Env \<Rightarrow> LogicalSessionId \<Rightarrow> TxnNumber \<Rightarrow> StmtId list \<Rightarrow> OpTime \<Rightarrow> Node \<Rightarrow> Node" where
  "onRetryableWriteCloningCompleted env sid txnNum' stmtIds lastWrite node =
     (let p = participantOf env node sid in
      node\<lparr>sessionCatalog :=
             storeParticipant sid
               (p\<lparr>activeTxnNumber := txnNum',
                  committedStatements := committedStatements p @ stmtIds,
                  lastWriteOpTime := lastWrite\<rparr>)
               (sessionCatalog node)\<rparr>)"

text \<open>
  Modelled from the spec: \<^verbatim>\<open>onExitPrepare()\<close> and the wait for it. When the wait returns the
  prepared transaction of the session has ended.
\<close>

definition waitForExitPrepare :: "Env \<Rightarrow> LogicalSessionId \<Rightarrow> Node \<Rightarrow> Node" where
  "waitForExitPrepare env sid node =
     node\<lparr>sessionCatalog :=
            storeParticipant sid ((participantOf env node sid)\<lparr>preparedTxnInProgress := False\<rparr>)
              (sessionCatalog node)\<rparr>"

text \<open>
  Modelled from the spec: \<^verbatim>\<open>repl::logOp\<close> on an entry whose op time was reset gives the entry
  the next op time of the node and appends it to the node's oplog.
\<close>

definition logOp :: "DurableOplogEntry \<Rightarrow> Node \<Rightarrow> OpTime \<times> Node" where
  "logOp entry node =
     (let t = \<lparr> opTimestamp = Suc (lastOpTimestamp node), opTerm = replTerm node \<rparr>
      in (t, node\<lparr>localOplog := localOplog node @ [entry\<lparr>opTime := t\<rparr>],
                   lastOpTimestamp := Suc (lastOpTimestamp node)\<rparr>))"

text \<open>
  \<^verbatim>\<open>insertPrePostImageOplogEntry\<close>. Parsing the serialized entry back is taken to give the
  entry; \<open>now\<close> is the value of \<^verbatim>\<open>Date_t::now()\<close>.
\<close>

definition insertPrePostImageOplogEntry ::
    "int \<Rightarrow> DurableOplogEntry \<Rightarrow> Node \<Rightarrow> (failure + OpTime) \<times> Node" where
  "insertPrePostImageOplogEntry now prePostImageOp node =
     (if opType prePostImageOp \<noteq> kNoop then (Inl (DBException 4990408), node)
      else
        let noOpOplog = prePostImageOp\<lparr>opTime := nullOpTime, wallClockTime := now\<rparr>;
            (oplogOpTime, node') = logOp noOpOplog node
        in if isNull oplogOpTime then (Inl (DBException 4990409), node)
           else (Inr oplogOpTime, node'))"

text \<open>
  The part of \<^verbatim>\<open>insertOplogAndUpdateConfigForRetryable\<close> after the \<^verbatim>\<open>try\<close> block: the
  pre-image or post-image entry, the marker entry, and the update of the session, the last
  two in one unit of work.
\<close>

definition writeRetryableMarker ::
    "Env \<Rightarrow> int \<Rightarrow> OplogEntry \<Rightarrow> LogicalSessionId \<Rightarrow> TxnNumber \<Rightarrow> StmtId \<Rightarrow> Node
      \<Rightarrow> (failure + Status) \<times> Node" where
  "writeRetryableMarker env now oplog sid txnNumber stmtId node =
     (case (case getPreImageOp oplog of
              Some preImageOp \<Rightarrow> insertPrePostImageOplogEntry now preImageOp node
            | None \<Rightarrow>
                (case getPostImageOp oplog of
                   Some postImageOp \<Rightarrow> insertPrePostImageOplogEntry now postImageOp node
                 | None \<Rightarrow> (Inr nullOpTime, node))) of
        (Inl e, node1) \<Rightarrow> (Inl e, node1)
      | (Inr prePostImageOpTime, node1) \<Rightarrow>
          let rawOplogBSON = entryToBSON env (getEntry oplog);
              noOpOplog = (getEntry oplog)
                \<lparr>object2 := Some rawOplogBSON,
                 nss := NamespaceString [] [],
                 object := BObj [(''$reshardingOplogApply'', BNumber 1)],
                 preImageOpTime :=
                   (if getPreImageOp oplog \<noteq> None then Some prePostImageOpTime
                    else preImageOpTime (getEntry oplog)),
                 postImageOpTime :=
                   (if getPreImageOp oplog = None \<and> getPostImageOp oplog \<noteq> None
                    then Some prePostImageOpTime
                    else postImageOpTime (getEntry oplog)),
                 prevWriteOpTimeInTransaction :=
                   Some (lastWriteOpTime (participantOf env node1 sid)),
                 opType := kNoop,
                 opTime := nullOpTime,
                 wallClockTime := now\<rparr>;
              (oplogOpTime, node2) = logOp noOpOplog node1
          in if isNull oplogOpTime then (Inl (DBException 4990402), node1)
             else (Inr OK,
                   onRetryableWriteCloningCompleted env sid txnNumber [stmtId] oplogOpTime node2))"

text \<open>
  One pass through \<^verbatim>\<open>insertOplogAndUpdateConfigForRetryable\<close>: \<open>Inr\<close> is what the function
  returns or throws, together with the node it leaves; \<open>Inl\<close> is the node on which the
  function calls itself after \<^verbatim>\<open>PreparedTransactionInProgress\<close> was caught and the wait has
  returned. The other two codes caught give \<^verbatim>\<open>Status::OK()\<close>. The session is checked out
  before the participant is taken, so the participant exists and 4990400 is not raised; the
  modelled participant raises no code but the three the handler catches, so the \<^verbatim>\<open>throw\<close>
  that passes other codes on has no branch here.
\<close>

definition retryablePass ::
    "Env \<Rightarrow> int \<Rightarrow> OplogEntry \<Rightarrow> Node \<Rightarrow> Node + (failure + Status) \<times> Node" where
  "retryablePass env now oplog node =
     (case getTxnNumber oplog of
        None \<Rightarrow> Inr (Inl UndefinedBehaviour, node)
      | Some txnNumber \<Rightarrow>
     (case getSessionId oplog of
        None \<Rightarrow> Inr (Inl UndefinedBehaviour, node)
      | Some sid \<Rightarrow>
     (case getStatementId oplog of
        None \<Rightarrow> Inr (Inl UndefinedBehaviour, node)
      | Some stmtId \<Rightarrow>
     (case beginOrContinue env node sid txnNumber of
        Inl TransactionTooOld \<Rightarrow> Inr (Inr OK, node)
      | Inl IncompleteTransactionHistory \<Rightarrow> Inr (Inr OK, node)
      | Inl PreparedTransactionInProgress \<Rightarrow> Inl (waitForExitPrepare env sid node)
      | Inr node1 \<Rightarrow>
          (case checkStatementExecuted env node1 sid stmtId of
             Inl TransactionTooOld \<Rightarrow> Inr (Inr OK, node1)
           | Inl IncompleteTransactionHistory \<Rightarrow> Inr (Inr OK, node1)
           | Inl PreparedTransactionInProgress \<Rightarrow> Inl (waitForExitPrepare env sid node1)
           | Inr True \<Rightarrow> Inr (Inr OK, node1)
           | Inr False \<Rightarrow> Inr (writeRetryableMarker env now oplog sid txnNumber stmtId node1))))))"

text \<open>
  \<^verbatim>\<open>insertOplogAndUpdateConfigForRetryable\<close> calls itself only after a prepared transaction
  of the session was in progress, and the wait ends it, so there is at most one such call.
\<close>

definition preparedPending :: "Env \<Rightarrow> OplogEntry \<Rightarrow> Node \<Rightarrow> nat" where
  "preparedPending env oplog node =
     (case getSessionId oplog of
        None \<Rightarrow> 0
      | Some sid \<Rightarrow> if preparedTxnInProgress (participantOf env node sid) then 1 else 0)"

lemma map_of_storeParticipant:
  "map_of (storeParticipant sid p cat) = (map_of cat)(sid \<mapsto> p)"
  by (induction cat) (auto simp: fun_eq_iff)

lemma participantOf_store:
  "participantOf env (node\<lparr>sessionCatalog := storeParticipant sid p (sessionCatalog node)\<rparr>) sid' =
     (if sid' = sid then p else participantOf env node sid')"
  by (simp add: participantOf_def map_of_storeParticipant)

lemma checkStatementExecuted_not_prepared:
  "checkStatementExecuted env node sid stmtId \<noteq> Inl PreparedTransactionInProgress"
  by (simp add: checkStatementExecuted_def Let_def)

lemma retryablePass_again:
  assumes "retryablePass env now oplog node = Inl node'"
  shows "preparedPending env oplog node' < preparedPending env oplog node"
proof -
  from assms obtain txnNumber sid stmtId
    where sid: "getSessionId oplog = Some sid"
      and boc: "beginOrContinue env node sid txnNumber = Inl PreparedTransactionInProgress"
      and node': "node' = waitForExitPrepare env sid node"
    by (auto simp: retryablePass_def checkStatementExecuted_not_prepared
        split: option.splits sum.splits ParticipantError.splits bool.splits)
  from boc have "preparedTxnInProgress (participantOf env node sid)"
    by (auto simp: beginOrContinue_def Let_def split: if_splits)
  moreover have "\<not> preparedTxnInProgress (participantOf env node' sid)"
    by (simp add: node' waitForExitPrepare_def participantOf_store)
  ultimately show ?thesis by (simp add: preparedPending_def sid)
qed

text \<open>\<^verbatim>\<open>insertOplogAndUpdateConfigForRetryable\<close>.\<close>

function insertOplogAndUpdateConfigForRetryable ::
    "Env \<Rightarrow> int \<Rightarrow> OplogEntry \<Rightarrow> Node \<Rightarrow> (failure + Status) \<times> Node" where
  "insertOplogAndUpdateConfigForRetryable env now oplog node =
     (case retryablePass env now oplog node of
        Inl node' \<Rightarrow> insertOplogAndUpdateConfigForRetryable env now oplog node'
      | Inr r \<Rightarrow> r)"
  by pat_completeness auto
termination
proof (relation "measure (\<lambda>(env, now, oplog, node). preparedPending env oplog node)")
  show "wf (measure (\<lambda>(env, now, oplog, node). preparedPending env oplog node))" by simp
next
  fix env now oplog node node'
  assume "retryablePass env now oplog node = Inl node'"
  from retryablePass_again [OF this]
  show "((env, now, oplog, node'), (env, now, oplog, node))
      \<in> measure (\<lambda>(env, now, oplog, node). preparedPending env oplog node)"
    by simp
qed

text \<open>\<^verbatim>\<open>isRetryableNoOp\<close>; grouped inserts are not modelled, an entry stands for itself.\<close>

definition isRetryableNoOp :: "OplogEntry \<Rightarrow> bool" where
  "isRetryableNoOp op =
     (if getOpType op \<noteq> kNoop then False
      else getObject op = kReshardingOplogTag)"

fun isCrudOpType :: "OpTypeEnum \<Rightarrow> bool" where
  "isCrudOpType kInsert = True"
| "isCrudOpType kUpdate = True"
| "isCrudOpType kDelete = True"
| "isCrudOpType kCommand = False"
| "isCrudOpType kNoop = False"

text \<open>
  \<^verbatim>\<open>_applyOplogEntryOrGroupedInserts\<close>. The two operations of the application rules are
  parameters; the two \<^verbatim>\<open>invariant\<close>s on the operation context are taken to hold.
\<close>

definition applyOplogEntryOrGroupedInserts ::
    "Env \<Rightarrow> int \<Rightarrow> (OplogEntry \<Rightarrow> Node \<Rightarrow> (failure + Status) \<times> Node)
      \<Rightarrow> (OplogEntry \<Rightarrow> Node \<Rightarrow> (failure + Status) \<times> Node)
      \<Rightarrow> OplogEntry \<Rightarrow> Node \<Rightarrow> (failure + Status) \<times> Node" where
  "applyOplogEntryOrGroupedInserts env now applyOperation applyCommand op node =
     (if isRetryableNoOp op then insertOplogAndUpdateConfigForRetryable env now op node
      else if getOpType op = kNoop then (Inr OK, node)
      else if isCrudOpType (getOpType op) then applyOperation op node
      else if getOpType op = kCommand then applyCommand op node
      else (Inl InvariantFailure, node))"

definition sampleNode :: Node where
  "sampleNode = \<lparr> sessionCatalog = [], localOplog = [], lastOpTimestamp = 100, replTerm = 1 \<rparr>"


definition sampleShadow :: OplogEntry where
  "sampleShadow =
     convertToNoOpWithReshardingTag sampleToBSON
       (sampleOp kInsert 5 (Some sessionS) (Some 1) (Some 0))"

definition sampleApply :: "OplogEntry \<Rightarrow> Node \<Rightarrow> (failure + Status) \<times> Node" where
  "sampleApply op node = (Inr OK, node)"

section \<open>Properties\<close>

subsection \<open>Preprocessing\<close>

text \<open>
  C10. Preprocessing a fetched entry raises an error exactly when the entry's namespace
  differs from the namespace being resharded or its collection UUID differs from the UUID
  being resharded (an entry without UUID differs). An accepted entry is appended to the
  buffer with its namespace replaced by the output namespace and its UUID cleared; every
  other field of the entry, and its pre-image and post-image entries, are unchanged.
\<close>

theorem preProcess_rejects_iff_and_preserves:
  "((\<exists>e. preProcessAndPushOpsToBuffer cfg oplog buf = Inl e) \<longleftrightarrow>
      (getNss oplog \<noteq> nsBeingResharded cfg \<or> getUuid oplog \<noteq> Some (uuidBeingResharded cfg)))
   \<and> (getNss oplog = nsBeingResharded cfg \<and> getUuid oplog = Some (uuidBeingResharded cfg) \<longrightarrow>
        preProcessAndPushOpsToBuffer cfg oplog buf =
          Inr (buf @ [oplog\<lparr>getEntry := (getEntry oplog)\<lparr>nss := outputNs cfg, uuid := None\<rparr>\<rparr>]))"
  by (auto simp: preProcessAndPushOpsToBuffer_def Let_def getNss_def getUuid_def getOpType_def
      getObject_def getObject2_def getStatementId_def get_id_def)

theorem preProcess_rejects_iff_and_preserves_witness:
  "(\<exists>e. preProcessAndPushOpsToBuffer sampleConfig
          ((sampleOp kInsert 5 (Some sessionS) (Some 1) (Some 0))
             \<lparr>getEntry := (sampleDurable kInsert 5 (Some sessionS) (Some 1) (Some 0))\<lparr>uuid := None\<rparr>\<rparr>) [] = Inl e)
   \<and> preProcessAndPushOpsToBuffer sampleConfig (sampleOp kInsert 5 (Some sessionS) (Some 1) (Some 0)) [] =
       Inr [(sampleOp kInsert 5 (Some sessionS) (Some 1) (Some 0))
              \<lparr>getEntry := (sampleDurable kInsert 5 (Some sessionS) (Some 1) (Some 0))
                 \<lparr>nss := NamespaceString ''test'' ''system.resharding.42'', uuid := None\<rparr>\<rparr>]"
  using preProcess_rejects_iff_and_preserves
          [of sampleConfig "sampleOp kInsert 5 (Some sessionS) (Some 1) (Some 0)" "[]"]
        preProcess_rejects_iff_and_preserves
          [of sampleConfig "(sampleOp kInsert 5 (Some sessionS) (Some 1) (Some 0))
             \<lparr>getEntry := (sampleDurable kInsert 5 (Some sessionS) (Some 1) (Some 0))\<lparr>uuid := None\<rparr>\<rparr>" "[]"]
  by (simp add: sampleConfig_def sampleOp_def sampleDurable_def getNss_def getUuid_def)

subsection \<open>Shadow entries\<close>

text \<open>
  C6, as the code has it. For every entry, with or without a session identity, the derived
  shadow entry is a no-op entry whose object is the resharding tag, whose second object is
  the serialized form of the original durable entry, whose namespace is the original's
  namespace (it is not cleared), whose collection UUID is cleared, and whose session
  information, statement id, pre-image and post-image op times and pre-image and post-image
  entries are those of the original.
\<close>

theorem convertToNoOp_shape:
  "getOpType (convertToNoOpWithReshardingTag toBSON oplog) = kNoop
   \<and> getObject (convertToNoOpWithReshardingTag toBSON oplog) = kReshardingOplogTag
   \<and> getObject2 (convertToNoOpWithReshardingTag toBSON oplog) = Some (toBSON (getEntry oplog))
   \<and> getNss (convertToNoOpWithReshardingTag toBSON oplog) = getNss oplog
   \<and> getUuid (convertToNoOpWithReshardingTag toBSON oplog) = None
   \<and> getSessionId (convertToNoOpWithReshardingTag toBSON oplog) = getSessionId oplog
   \<and> getTxnNumber (convertToNoOpWithReshardingTag toBSON oplog) = getTxnNumber oplog
   \<and> getStatementId (convertToNoOpWithReshardingTag toBSON oplog) = getStatementId oplog
   \<and> preImageOpTime (getEntry (convertToNoOpWithReshardingTag toBSON oplog)) =
       preImageOpTime (getEntry oplog)
   \<and> postImageOpTime (getEntry (convertToNoOpWithReshardingTag toBSON oplog)) =
       postImageOpTime (getEntry oplog)
   \<and> getPreImageOp (convertToNoOpWithReshardingTag toBSON oplog) = getPreImageOp oplog
   \<and> getPostImageOp (convertToNoOpWithReshardingTag toBSON oplog) = getPostImageOp oplog"
  by (simp add: convertToNoOpWithReshardingTag_def getOpType_def getObject_def getObject2_def
      getNss_def getUuid_def getSessionId_def getTxnNumber_def getStatementId_def)

text \<open>
  The claim as the specification words it fails: the shadow entry of a session insert into
  \<^verbatim>\<open>test.coll\<close> still has the namespace \<^verbatim>\<open>test.coll\<close>, not the empty namespace.
\<close>

theorem convertToNoOp_namespace_not_cleared:
  "getSessionId (sampleOp kInsert 5 (Some sessionS) (Some 1) (Some 0)) = Some sessionS
   \<and> getNss (convertToNoOpWithReshardingTag sampleToBSON
               (sampleOp kInsert 5 (Some sessionS) (Some 1) (Some 0)))
       = NamespaceString ''test'' ''coll''
   \<and> getNss (convertToNoOpWithReshardingTag sampleToBSON
               (sampleOp kInsert 5 (Some sessionS) (Some 1) (Some 0)))
       \<noteq> NamespaceString [] []"
  by (simp add: convertToNoOpWithReshardingTag_def getNss_def getSessionId_def sampleOp_def
      sampleDurable_def)

subsection \<open>Completion accounting\<close>

lemma lastNotOK_Cons:
  "lastNotOK c (st # sts) = lastNotOK (if isOK st then c else st) sts"
  by (simp add: lastNotOK_def split: list.splits)

lemma isOK_lastNotOK: "isOK (lastNotOK OK sts) \<longleftrightarrow> list_all isOK sts"
proof (cases "filter (\<lambda>st. \<not> isOK st) sts")
  case Nil
  then have "list_all isOK sts"
    by (simp add: list_all_iff filter_empty_conv)
  with Nil show ?thesis by (simp add: lastNotOK_def)
next
  case (Cons e es)
  then have "last (e # es) \<in> set (filter (\<lambda>st. \<not> isOK st) sts)"
    by (metis last_in_set list.distinct(1))
  then have "\<not> isOK (last (e # es))" and "\<not> list_all isOK sts"
    by (auto simp: list_all_iff)
  with Cons show ?thesis by (simp add: lastNotOK_def)
qed

lemma onWriterVectorsDone_run:
  "length sts \<le> remainingWritersToWait a \<Longrightarrow>
   onWriterVectorsDone sts a =
     Inr (a\<lparr>remainingWritersToWait := remainingWritersToWait a - length sts,
            currentBatchConsolidatedStatus := lastNotOK (currentBatchConsolidatedStatus a) sts,
            currentApplyBatchPromise :=
              (if sts \<noteq> [] \<and> length sts = remainingWritersToWait a
               then Some (lastNotOK (currentBatchConsolidatedStatus a) sts)
               else currentApplyBatchPromise a)\<rparr>)"
proof (induction sts arbitrary: a)
  case Nil
  then show ?case by (simp add: lastNotOK_def)
next
  case (Cons st sts)
  from Cons.prems have pos: "0 < remainingWritersToWait a" by simp
  show ?case
  proof (cases "remainingWritersToWait a = 1")
    case True
    with Cons.prems have "sts = []" by simp
    with True show ?thesis
      by (simp add: onWriterVectorDone_def Let_def lastNotOK_Cons lastNotOK_def)
  next
    case False
    with pos have gt: "1 < remainingWritersToWait a" by simp
    define a2 where "a2 = (if \<not> isOK st
        then a\<lparr>remainingWritersToWait := remainingWritersToWait a - 1,
               currentBatchConsolidatedStatus := st\<rparr>
        else a\<lparr>remainingWritersToWait := remainingWritersToWait a - 1\<rparr>)"
    have step: "onWriterVectorDone st a = Inr a2"
      using gt by (simp add: onWriterVectorDone_def Let_def a2_def)
    have len: "length sts \<le> remainingWritersToWait a2"
      using Cons.prems by (auto simp: a2_def)
    show ?thesis
      using Cons.IH [OF len] gt Cons.prems
      by (auto simp: step lastNotOK_Cons a2_def)
  qed
qed

text \<open>
  C5, as the code has it. A batch starts with the counter at the number of writers, the
  consolidated status OK and the promise not readied. After the first \<open>k\<close> reports of any
  sequence of reports, the counter is the number of reports still missing, and the
  consolidated status is the last non-OK status reported so far: each non-OK report
  overwrites the status kept before it, a later OK report does not change it, so the status
  is OK only if every report so far was OK. The promise is readied, with the consolidated
  status, exactly when the last report has come in and not before.
\<close>

theorem completion_keeps_last_error:
  assumes "remainingWritersToWait a = length sts"
    and "currentBatchConsolidatedStatus a = OK"
    and "currentApplyBatchPromise a = None"
    and "k \<le> length sts"
  shows "\<exists>a'. onWriterVectorsDone (take k sts) a = Inr a'
     \<and> remainingWritersToWait a' = length sts - k
     \<and> currentBatchConsolidatedStatus a' = lastNotOK OK (take k sts)
     \<and> currentApplyBatchPromise a' =
         (if k = length sts \<and> 0 < k then Some (lastNotOK OK sts) else None)
     \<and> (isOK (currentBatchConsolidatedStatus a') \<longleftrightarrow> list_all isOK (take k sts))"
proof -
  have "length (take k sts) \<le> remainingWritersToWait a"
    using assms by simp
  from onWriterVectorsDone_run [OF this] show ?thesis
    using assms by (auto simp: isOK_lastNotOK)
qed

theorem completion_keeps_last_error_witness:
  "(case onWriterVectorsDone [OK, NotOK 7, NotOK 9, OK]
           (initialApplier\<lparr>remainingWritersToWait := 4\<rparr>) of
      Inl e \<Rightarrow> None
    | Inr a' \<Rightarrow> Some (remainingWritersToWait a', currentBatchConsolidatedStatus a',
                      currentApplyBatchPromise a'))
   = Some (0, NotOK 9, Some (NotOK 9))"
  using completion_keeps_last_error
          [of "initialApplier\<lparr>remainingWritersToWait := 4\<rparr>" "[OK, NotOK 7, NotOK 9, OK]" 4]
  by (auto simp: initialApplier_def lastNotOK_def)

text \<open>
  The claim as the specification words it fails: when two writers fail, the status
  delivered is the one reported second, not the first one observed.
\<close>

theorem completion_first_error_not_retained:
  "(case onWriterVectorsDone [NotOK 1, NotOK 2] (initialApplier\<lparr>remainingWritersToWait := 2\<rparr>) of
      Inl e \<Rightarrow> None
    | Inr a' \<Rightarrow> currentApplyBatchPromise a') = Some (NotOK 2)
   \<and> firstNotOK OK [NotOK 1, NotOK 2] = NotOK 1"
  by (simp add: onWriterVectorDone_def initialApplier_def firstNotOK_def Let_def)

subsection \<open>Prepared transactions\<close>

lemma fillLoop_append:
  "fillLoop env (xs @ ys) st =
     (case fillLoop env xs st of Inl e \<Rightarrow> Inl e | Inr st' \<Rightarrow> fillLoop env ys st')"
proof (induction xs arbitrary: st)
  case Nil
  show ?case by simp
next
  case (Cons x xs)
  obtain wv tr where st: "st = (wv, tr)" by (cases st)
  show ?case
    unfolding st by (simp add: Cons.IH split: sum.splits)
qed

lemma addToWriterVector_not_DBException:
  "addToWriterVector env op wv \<noteq> Inl (DBException c)"
  by (simp add: addToWriterVector_def Let_def)

lemma trackSessionOp_DBException:
  "trackSessionOp env op tr = Inl (DBException c) \<Longrightarrow> c = 4990401"
  by (auto simp: trackSessionOp_def Let_def split: option.splits if_splits)

lemma fillLoop_prepared_fails:
  "\<exists>op\<in>set batch. entryShouldPrepare env op \<or> entryIsPreparedCommit env op \<Longrightarrow>
   \<exists>e. fillLoop env batch st = Inl e"
proof (induction batch arbitrary: st)
  case Nil
  then show ?case by simp
next
  case (Cons x xs)
  obtain wv tr where st: "st = (wv, tr)" by (cases st)
  show ?case
  proof (cases "entryShouldPrepare env x \<or> entryIsPreparedCommit env x")
    case True
    then show ?thesis unfolding st by auto
  next
    case False
    with Cons.prems have "\<exists>op\<in>set xs. entryShouldPrepare env op \<or> entryIsPreparedCommit env op"
      by auto
    from Cons.IH [OF this] show ?thesis
      unfolding st using False by (auto split: sum.splits)
  qed
qed

lemma fillLoop_prepared_code:
  "fillLoop env batch st = Inl (DBException c) \<Longrightarrow> c = 5012000 \<or> c = 5012001 \<Longrightarrow>
   \<exists>op\<in>set batch. entryShouldPrepare env op \<or> entryIsPreparedCommit env op"
proof (induction batch arbitrary: st)
  case Nil
  then show ?case by simp
next
  case (Cons x xs)
  obtain wv tr where st: "st = (wv, tr)" by (cases st)
  show ?case
  proof (cases "entryShouldPrepare env x \<or> entryIsPreparedCommit env x")
    case True
    then show ?thesis by auto
  next
    case False
    show ?thesis
    proof (cases "getOpType x = kNoop")
      case True
      with Cons.prems False have "fillLoop env xs (wv, tr) = Inl (DBException c)"
        unfolding st by simp
      from Cons.IH [OF this Cons.prems(2)] show ?thesis by auto
    next
      case nn: False
      show ?thesis
      proof (cases "addToWriterVector env x wv")
        case (Inl e)
        with Cons.prems False nn show ?thesis
          unfolding st by (simp add: addToWriterVector_not_DBException)
      next
        case (Inr wv')
        show ?thesis
        proof (cases "trackSessionOp env x tr")
          case (Inl e)
          with Cons.prems False nn Inr have "trackSessionOp env x tr = Inl (DBException c)"
            unfolding st by simp
          from trackSessionOp_DBException [OF this] Cons.prems(2) show ?thesis by simp
        next
          case tr': (Inr tr')
          with Cons.prems False nn Inr have "fillLoop env xs (wv', tr') = Inl (DBException c)"
            unfolding st by simp
          from Cons.IH [OF this Cons.prems(2)] show ?thesis by auto
        qed
      qed
    qed
  qed
qed

lemma addDerivedOps_DBException:
  "addDerivedOpsToWriterVector env wv ds = Inl (DBException c) \<Longrightarrow> c = 4990403"
  by (induction env wv ds rule: addDerivedOpsToWriterVector.induct)
     (auto simp: Let_def split: if_splits option.splits)

lemmas getters =
  getOpType_def getNss_def getUuid_def getObject_def getObject2_def getSessionId_def
  getTxnNumber_def getStatementId_def getTimestamp_def get_id_def

lemmas samples =
  sampleEnv_def sampleOp_def sampleDurable_def samplePrepare_def sampleCommit_def sessionS_def
  sessionT_def sampleToBSON_def sampleConfig_def

lemma addToWriterVector_places:
  assumes add: "addToWriterVector env op wv = Inr wv'"
  shows "length wv' = length wv
     \<and> (\<forall>i<length wv. set (wv ! i) \<subseteq> set (wv' ! i))
     \<and> (\<exists>i<length wv'. op \<in> set (wv' ! i))"
proof -
  from add have n0: "length wv \<noteq> 0"
    by (auto simp: addToWriterVector_def split: if_splits)
  define j where "j = (case getSessionId op of
                          Some sid \<Rightarrow> lsidHash env sid mod length wv
                        | None \<Rightarrow> nssHash env (getNss op) mod length wv)"
  have j: "j < length wv"
    using n0 by (simp add: j_def split: option.splits)
  have wv': "wv' = wv[j := wv ! j @ [op]]"
    using add n0 by (simp add: addToWriterVector_def Let_def j_def)
  have nth: "wv' ! i = (if i = j then wv ! j @ [op] else wv ! i)" if "i < length wv" for i
    using that by (simp add: wv' nth_list_update)
  have "op \<in> set (wv' ! j)" using nth [OF j] by simp
  with j have "\<exists>i<length wv'. op \<in> set (wv' ! i)" by (auto simp: wv')
  moreover have "\<forall>i<length wv. set (wv ! i) \<subseteq> set (wv' ! i)" by (auto simp: nth)
  moreover have "length wv' = length wv" by (simp add: wv')
  ultimately show ?thesis by blast
qed

lemma fillLoop_places:
  assumes "fillLoop env batch (wv, tr) = Inr (wv', tr')"
  shows "length wv' = length wv
     \<and> (\<forall>i<length wv. set (wv ! i) \<subseteq> set (wv' ! i))
     \<and> (\<forall>op\<in>set batch. getOpType op \<noteq> kNoop \<longrightarrow> (\<exists>i<length wv'. op \<in> set (wv' ! i)))"
  using assms
proof (induction batch arbitrary: wv tr)
  case Nil
  then show ?case by simp
next
  case (Cons x xs)
  from Cons.prems have np: "\<not> entryShouldPrepare env x" "\<not> entryIsPreparedCommit env x"
    by (auto split: if_splits)
  show ?case
  proof (cases "getOpType x = kNoop")
    case True
    with Cons.prems np have run: "fillLoop env xs (wv, tr) = Inr (wv', tr')" by simp
    from Cons.IH [OF run] True show ?thesis
      by (auto simp del: fillLoop.simps)
  next
    case False
    from Cons.prems np False obtain wv1 tr1
      where add: "addToWriterVector env x wv = Inr wv1"
        and run: "fillLoop env xs (wv1, tr1) = Inr (wv', tr')"
      by (auto split: sum.splits)
    from addToWriterVector_places [OF add]
    have len1: "length wv1 = length wv"
      and mono1: "\<forall>i<length wv. set (wv ! i) \<subseteq> set (wv1 ! i)"
      and x1: "\<exists>i<length wv1. x \<in> set (wv1 ! i)"
      by blast+
    from Cons.IH [OF run]
    have len': "length wv' = length wv1"
      and mono': "\<forall>i<length wv1. set (wv1 ! i) \<subseteq> set (wv' ! i)"
      and xs': "\<forall>op\<in>set xs. getOpType op \<noteq> kNoop \<longrightarrow> (\<exists>i<length wv'. op \<in> set (wv' ! i))"
      by blast+
    from x1 mono' len' have x': "\<exists>i<length wv'. x \<in> set (wv' ! i)" by auto
    have mono: "\<forall>i<length wv. set (wv ! i) \<subseteq> set (wv' ! i)"
    proof (intro allI impI)
      fix i assume i: "i < length wv"
      with mono1 have "set (wv ! i) \<subseteq> set (wv1 ! i)" by blast
      moreover from i len1 mono' have "set (wv1 ! i) \<subseteq> set (wv' ! i)" by simp
      ultimately show "set (wv ! i) \<subseteq> set (wv' ! i)" by (rule subset_trans)
    qed
    from len' len1 mono x' xs' show ?thesis
      by (auto simp del: fillLoop.simps)
  qed
qed

lemma applyBatch_fill_failed:
  "fillWriterVectors env (currentBatchToApply a) (currentDerivedOps a) = (Inl e, currentDerivedOps a)
   \<Longrightarrow> applyBatch env a = (Inl e, a)"
  by (simp add: applyBatch_def)

text \<open>
  C9, as the code has it. The two tests for prepared transactions head the body of the
  loop, so each record is tested when the loop reaches it. If any record of the batch should
  be prepared or is the commit of a prepared transaction, partitioning fails: it returns no
  writer vectors, the buffer of derived entries is as before, and \<^verbatim>\<open>_applyBatch\<close> leaves the
  applier as it was, its writer vectors included, and schedules no writer. When the loop has
  processed the records before the first such record without failing, the error is 5012000
  or 5012001 for that record, and by then every data record before it has been placed in a
  slot of the function's local writer vectors, which are dropped with the failure. A batch
  without such a record never fails with 5012000 or 5012001.
\<close>

theorem prepared_transactions_rejected_in_loop:
  "((\<exists>op\<in>set batch. entryShouldPrepare env op \<or> entryIsPreparedCommit env op) \<longrightarrow>
      (\<exists>e. fillWriterVectors env batch derivedOps = (Inl e, derivedOps)))
   \<and> ((\<exists>op\<in>set (currentBatchToApply a).
          entryShouldPrepare env op \<or> entryIsPreparedCommit env op) \<longrightarrow>
      (\<exists>e. applyBatch env a = (Inl e, a)))
   \<and> ((\<forall>op\<in>set batch. \<not> entryShouldPrepare env op \<and> \<not> entryIsPreparedCommit env op) \<longrightarrow>
        fst (fillWriterVectors env batch derivedOps) \<noteq> Inl (DBException 5012000)
        \<and> fst (fillWriterVectors env batch derivedOps) \<noteq> Inl (DBException 5012001))
   \<and> (\<forall>pre p post wv tr.
        batch = pre @ p # post
        \<and> fillLoop env pre (replicate (numThreads env) [], []) = Inr (wv, tr)
        \<and> (entryShouldPrepare env p \<or> entryIsPreparedCommit env p) \<longrightarrow>
        fillWriterVectors env batch derivedOps =
          (Inl (DBException (if entryShouldPrepare env p then 5012000 else 5012001)), derivedOps)
        \<and> length wv = numThreads env
        \<and> (\<forall>op\<in>set pre. getOpType op \<noteq> kNoop \<longrightarrow> (\<exists>i<length wv. op \<in> set (wv ! i))))"
proof (intro conjI impI allI)
  assume "\<exists>op\<in>set batch. entryShouldPrepare env op \<or> entryIsPreparedCommit env op"
  from fillLoop_prepared_fails [OF this]
  obtain e where "fillLoop env batch (replicate (numThreads env) [], []) = Inl e" by blast
  then show "\<exists>e. fillWriterVectors env batch derivedOps = (Inl e, derivedOps)"
    by (simp add: fillWriterVectors_def)
next
  assume "\<exists>op\<in>set (currentBatchToApply a).
          entryShouldPrepare env op \<or> entryIsPreparedCommit env op"
  from fillLoop_prepared_fails [OF this]
  obtain e where "fillLoop env (currentBatchToApply a) (replicate (numThreads env) [], []) = Inl e"
    by blast
  then have "fillWriterVectors env (currentBatchToApply a) (currentDerivedOps a) =
      (Inl e, currentDerivedOps a)"
    by (simp add: fillWriterVectors_def)
  from applyBatch_fill_failed [OF this] show "\<exists>e. applyBatch env a = (Inl e, a)" by blast
next
  assume none: "\<forall>op\<in>set batch. \<not> entryShouldPrepare env op \<and> \<not> entryIsPreparedCommit env op"
  have *: "fst (fillWriterVectors env batch derivedOps) \<noteq> Inl (DBException c)"
    if c: "c = 5012000 \<or> c = 5012001" for c
  proof
    assume f: "fst (fillWriterVectors env batch derivedOps) = Inl (DBException c)"
    show False
    proof (cases "fillLoop env batch (replicate (numThreads env) [], [])")
      case (Inl e)
      with f have "fillLoop env batch (replicate (numThreads env) [], []) = Inl (DBException c)"
        by (simp add: fillWriterVectors_def)
      from fillLoop_prepared_code [OF this c] none show False by blast
    next
      case (Inr st')
      obtain wv tr where st': "st' = (wv, tr)" by (cases st')
      from f Inr st'
      have "addDerivedOpsToWriterVector env wv (derivedOps @ deriveOps env tr) = Inl (DBException c)"
        by (simp add: fillWriterVectors_def Let_def split: sum.splits)
      from addDerivedOps_DBException [OF this] c show False by simp
    qed
  qed
  show "fst (fillWriterVectors env batch derivedOps) \<noteq> Inl (DBException 5012000)"
    by (rule *) simp
  show "fst (fillWriterVectors env batch derivedOps) \<noteq> Inl (DBException 5012001)"
    by (rule *) simp
next
  fix pre p post wv tr
  assume a: "batch = pre @ p # post
        \<and> fillLoop env pre (replicate (numThreads env) [], []) = Inr (wv, tr)
        \<and> (entryShouldPrepare env p \<or> entryIsPreparedCommit env p)"
  then have "fillLoop env batch (replicate (numThreads env) [], []) =
      Inl (DBException (if entryShouldPrepare env p then 5012000 else 5012001))"
    by (auto simp: fillLoop_append)
  then show "fillWriterVectors env batch derivedOps =
          (Inl (DBException (if entryShouldPrepare env p then 5012000 else 5012001)), derivedOps)"
    by (simp add: fillWriterVectors_def)
  from a have pre: "fillLoop env pre (replicate (numThreads env) [], []) = Inr (wv, tr)" by simp
  from fillLoop_places [OF pre] show "length wv = numThreads env" by simp
  from fillLoop_places [OF pre]
  show "\<forall>op\<in>set pre. getOpType op \<noteq> kNoop \<longrightarrow> (\<exists>i<length wv. op \<in> set (wv ! i))"
    by blast
qed

theorem prepared_transactions_rejected_in_loop_witness:
  "(\<exists>e. fillWriterVectors sampleEnv
          [sampleOp kInsert 5 (Some sessionS) (Some 1) (Some 0), samplePrepare] [] = (Inl e, []))
   \<and> (\<exists>e. applyBatch sampleEnv
          (initialApplier\<lparr>currentBatchToApply :=
             [sampleOp kInsert 5 (Some sessionS) (Some 1) (Some 0), samplePrepare]\<rparr>) =
          (Inl e, initialApplier\<lparr>currentBatchToApply :=
             [sampleOp kInsert 5 (Some sessionS) (Some 1) (Some 0), samplePrepare]\<rparr>))
   \<and> fillWriterVectors sampleEnv
       [sampleOp kInsert 5 (Some sessionS) (Some 1) (Some 0), sampleCommit] [] =
       (Inl (DBException 5012001), [])
   \<and> (\<exists>i<length [[], [sampleOp kInsert 5 (Some sessionS) (Some 1) (Some 0)]].
         sampleOp kInsert 5 (Some sessionS) (Some 1) (Some 0)
           \<in> set ([[], [sampleOp kInsert 5 (Some sessionS) (Some 1) (Some 0)]] ! i))
   \<and> fst (fillWriterVectors sampleEnv [sampleOp kInsert 5 None None None] []) \<noteq>
       Inl (DBException 5012000)"
proof -
  let ?ins = "sampleOp kInsert 5 (Some sessionS) (Some 1) (Some 0)"
  let ?a = "initialApplier\<lparr>currentBatchToApply := [?ins, samplePrepare]\<rparr>"
  have h1: "\<exists>op\<in>set [?ins, samplePrepare].
      entryShouldPrepare sampleEnv op \<or> entryIsPreparedCommit sampleEnv op"
    by code_simp
  have h1a: "\<exists>op\<in>set (currentBatchToApply ?a).
      entryShouldPrepare sampleEnv op \<or> entryIsPreparedCommit sampleEnv op"
    by code_simp
  have h2: "\<forall>op\<in>set [sampleOp kInsert 5 None None None].
      \<not> entryShouldPrepare sampleEnv op \<and> \<not> entryIsPreparedCommit sampleEnv op"
    by code_simp
  have h3: "[?ins, sampleCommit] = [?ins] @ sampleCommit # []
      \<and> fillLoop sampleEnv [?ins] (replicate (numThreads sampleEnv) [], []) =
          Inr ([[], [?ins]], [(sessionS, \<lparr>txnNum = 1, ops = [?ins]\<rparr>)])
      \<and> (entryShouldPrepare sampleEnv sampleCommit \<or> entryIsPreparedCommit sampleEnv sampleCommit)"
    by code_simp
  have h4: "\<not> entryShouldPrepare sampleEnv sampleCommit"
    by code_simp
  have h5: "getOpType ?ins \<noteq> kNoop"
    by code_simp
  from prepared_transactions_rejected_in_loop [of "[?ins, samplePrepare]" sampleEnv "[]" ?a] h1
  have c1: "\<exists>e. fillWriterVectors sampleEnv [?ins, samplePrepare] [] = (Inl e, [])"
    by blast
  from prepared_transactions_rejected_in_loop [of "[?ins, samplePrepare]" sampleEnv "[]" ?a] h1a
  have c1a: "\<exists>e. applyBatch sampleEnv ?a = (Inl e, ?a)"
    by blast
  note T = prepared_transactions_rejected_in_loop
         [of "[?ins, sampleCommit]" sampleEnv "[]" ?a, THEN conjunct2, THEN conjunct2,
          THEN conjunct2, rule_format, OF h3]
  from T h4
  have c2: "fillWriterVectors sampleEnv [?ins, sampleCommit] [] = (Inl (DBException 5012001), [])"
    by simp
  from T h5
  have c4: "\<exists>i<length [[], [?ins]]. ?ins \<in> set ([[], [?ins]] ! i)"
    by (meson list.set_intros(1))
  from prepared_transactions_rejected_in_loop [of "[sampleOp kInsert 5 None None None]" sampleEnv "[]" ?a] h2
  have c3: "fst (fillWriterVectors sampleEnv [sampleOp kInsert 5 None None None] []) \<noteq>
       Inl (DBException 5012000)"
    by blast
  from c1 c1a c2 c3 c4 show ?thesis by blast
qed

text \<open>
  The claim as the specification words it fails: the error does not come before every
  assignment. On the batch of a session insert followed by a prepare, the loop has placed the
  insert in slot 1 when it reaches the prepare and raises 5012000.
\<close>

theorem prepared_error_after_assignment:
  "fillLoop sampleEnv [sampleOp kInsert 5 (Some sessionS) (Some 1) (Some 0)]
     (replicate (numThreads sampleEnv) [], []) =
     Inr ([[], [sampleOp kInsert 5 (Some sessionS) (Some 1) (Some 0)]],
          [(sessionS, \<lparr>txnNum = 1, ops = [sampleOp kInsert 5 (Some sessionS) (Some 1) (Some 0)]\<rparr>)])
   \<and> sampleOp kInsert 5 (Some sessionS) (Some 1) (Some 0) \<in>
       set ([[], [sampleOp kInsert 5 (Some sessionS) (Some 1) (Some 0)]] ! 1)
   \<and> fillWriterVectors sampleEnv
       [sampleOp kInsert 5 (Some sessionS) (Some 1) (Some 0), samplePrepare] [] =
       (Inl (DBException 5012000), [])"
  by code_simp

subsection \<open>Session tracking\<close>

lemma addToWriterVector_length:
  "addToWriterVector env op wv = Inr wv' \<Longrightarrow> length wv' = length wv"
  by (auto simp: addToWriterVector_def Let_def split: if_splits)

lemma fillLoop_length:
  "fillLoop env batch (wv, tr) = Inr (wv', tr') \<Longrightarrow> length wv' = length wv"
proof (induction batch arbitrary: wv tr)
  case Nil
  then show ?case by simp
next
  case (Cons x xs)
  then show ?case
    by (auto split: if_splits sum.splits dest: addToWriterVector_length)
qed

lemma map_of_storeTracked:
  "map_of (storeTracked sid l tr) = (map_of tr)(sid \<mapsto> l)"
  by (induction tr) (auto simp: fun_eq_iff)

lemma trackedOps_storeTracked:
  "trackedOps env (storeTracked sid l tr) sid' = (if sid' = sid then l else trackedOps env tr sid')"
  by (simp add: trackedOps_def map_of_storeTracked)

text \<open>
  C2. Let the loop of the partitioner have processed the records \<open>pre\<close> of a batch without
  failing, and let the next record be a data record (not a no-op, not of a prepared
  transaction) that carries a session identity and a transaction number \<open>n\<close>. If \<open>n\<close>
  equals the number tracked for the session (the number of a default-constructed list when
  the session has no record yet), the record is appended to the session's tracked list. If
  \<open>n\<close> is greater, the tracked list becomes this record alone and the tracked number
  becomes \<open>n\<close>. If \<open>n\<close> is smaller, partitioning of every batch that continues this way
  fails, with code 4990401 when the tracked list has a record. The lists tracked for other
  sessions are not changed.
\<close>

theorem session_tracking_step:
  assumes pre: "fillLoop env pre (replicate (numThreads env) [], []) = Inr (wv, tracker)"
    and np: "\<not> entryShouldPrepare env op" "\<not> entryIsPreparedCommit env op"
    and nn: "getOpType op \<noteq> kNoop"
    and sid: "getSessionId op = Some sid"
    and txn: "getTxnNumber op = Some n"
    and threads: "0 < numThreads env"
  shows "(txnNum (trackedOps env tracker sid) = n \<longrightarrow>
           (\<exists>wv' tracker'.
              fillLoop env (pre @ [op]) (replicate (numThreads env) [], []) = Inr (wv', tracker')
              \<and> trackedOps env tracker' sid =
                  \<lparr> txnNum = n, ops = ops (trackedOps env tracker sid) @ [op] \<rparr>
              \<and> (\<forall>sid'. sid' \<noteq> sid \<longrightarrow> trackedOps env tracker' sid' = trackedOps env tracker sid')))
       \<and> (txnNum (trackedOps env tracker sid) < n \<longrightarrow>
           (\<exists>wv' tracker'.
              fillLoop env (pre @ [op]) (replicate (numThreads env) [], []) = Inr (wv', tracker')
              \<and> trackedOps env tracker' sid = \<lparr> txnNum = n, ops = [op] \<rparr>
              \<and> (\<forall>sid'. sid' \<noteq> sid \<longrightarrow> trackedOps env tracker' sid' = trackedOps env tracker sid')))
       \<and> (n < txnNum (trackedOps env tracker sid) \<longrightarrow>
           (\<forall>post derivedOps. \<exists>e.
              fillWriterVectors env (pre @ op # post) derivedOps = (Inl e, derivedOps)
              \<and> (ops (trackedOps env tracker sid) \<noteq> [] \<longrightarrow> e = DBException 4990401)))"
proof -
  from fillLoop_length [OF pre] threads have len: "length wv \<noteq> 0" by simp
  then obtain wv' where add: "addToWriterVector env op wv = Inr wv'"
    by (auto simp: addToWriterVector_def Let_def)
  let ?init = "(replicate (numThreads env) [], [])"
  have step: "fillLoop env (pre @ op # post) ?init =
      (case trackSessionOp env op tracker of
         Inl e \<Rightarrow> Inl e
       | Inr tracker' \<Rightarrow> fillLoop env post (wv', tracker'))" for post
    using pre np nn add by (simp add: fillLoop_append)
  show ?thesis
  proof (intro conjI impI)
    assume eq: "txnNum (trackedOps env tracker sid) = n"
    then have "trackSessionOp env op tracker =
        Inr (storeTracked sid ((trackedOps env tracker sid)
               \<lparr>ops := ops (trackedOps env tracker sid) @ [op]\<rparr>) tracker)"
      using sid txn by (simp add: trackSessionOp_def Let_def)
    with step [of "[]"] eq
    show "\<exists>wv' tracker'.
              fillLoop env (pre @ [op]) ?init = Inr (wv', tracker')
              \<and> trackedOps env tracker' sid =
                  \<lparr> txnNum = n, ops = ops (trackedOps env tracker sid) @ [op] \<rparr>
              \<and> (\<forall>sid'. sid' \<noteq> sid \<longrightarrow> trackedOps env tracker' sid' = trackedOps env tracker sid')"
      by (auto simp: trackedOps_storeTracked)
  next
    assume lt: "txnNum (trackedOps env tracker sid) < n"
    then have "trackSessionOp env op tracker =
        Inr (storeTracked sid \<lparr> txnNum = n, ops = [op] \<rparr> tracker)"
      using sid txn by (simp add: trackSessionOp_def Let_def)
    with step [of "[]"]
    show "\<exists>wv' tracker'.
              fillLoop env (pre @ [op]) ?init = Inr (wv', tracker')
              \<and> trackedOps env tracker' sid = \<lparr> txnNum = n, ops = [op] \<rparr>
              \<and> (\<forall>sid'. sid' \<noteq> sid \<longrightarrow> trackedOps env tracker' sid' = trackedOps env tracker sid')"
      by (auto simp: trackedOps_storeTracked)
  next
    assume gt: "n < txnNum (trackedOps env tracker sid)"
    then have "trackSessionOp env op tracker =
        Inl (if ops (trackedOps env tracker sid) = [] then UndefinedBehaviour
             else DBException 4990401)"
      using sid txn by (simp add: trackSessionOp_def Let_def)
    with step
    have "fillLoop env (pre @ op # post) ?init =
        Inl (if ops (trackedOps env tracker sid) = [] then UndefinedBehaviour
             else DBException 4990401)" for post
      by simp
    then show "\<forall>post derivedOps. \<exists>e.
              fillWriterVectors env (pre @ op # post) derivedOps = (Inl e, derivedOps)
              \<and> (ops (trackedOps env tracker sid) \<noteq> [] \<longrightarrow> e = DBException 4990401)"
      by (simp add: fillWriterVectors_def)
  qed
qed

theorem session_tracking_step_witness:
  "(\<exists>wv' tracker'.
      fillLoop sampleEnv
        [sampleOp kInsert 5 (Some sessionS) (Some 3) (Some 0),
         sampleOp kUpdate 6 (Some sessionS) (Some 3) (Some 1)]
        (replicate (numThreads sampleEnv) [], []) = Inr (wv', tracker')
      \<and> trackedOps sampleEnv tracker' sessionS =
          \<lparr> txnNum = 3, ops = [sampleOp kInsert 5 (Some sessionS) (Some 3) (Some 0),
                                 sampleOp kUpdate 6 (Some sessionS) (Some 3) (Some 1)] \<rparr>)
   \<and> (\<exists>wv' tracker'.
      fillLoop sampleEnv
        [sampleOp kInsert 5 (Some sessionS) (Some 3) (Some 0),
         sampleOp kInsert 6 (Some sessionS) (Some 4) (Some 0)]
        (replicate (numThreads sampleEnv) [], []) = Inr (wv', tracker')
      \<and> trackedOps sampleEnv tracker' sessionS =
          \<lparr> txnNum = 4, ops = [sampleOp kInsert 6 (Some sessionS) (Some 4) (Some 0)] \<rparr>)
   \<and> fillWriterVectors sampleEnv
        [sampleOp kInsert 5 (Some sessionS) (Some 3) (Some 0),
         sampleOp kInsert 6 (Some sessionS) (Some 2) (Some 0),
         sampleOp kInsert 7 None None None] [] = (Inl (DBException 4990401), [])"
proof -
  let ?a = "sampleOp kInsert 5 (Some sessionS) (Some 3) (Some 0)"
  let ?b = "sampleOp kUpdate 6 (Some sessionS) (Some 3) (Some 1)"
  let ?c = "sampleOp kInsert 6 (Some sessionS) (Some 4) (Some 0)"
  let ?d = "sampleOp kInsert 6 (Some sessionS) (Some 2) (Some 0)"
  let ?tr = "[(sessionS, \<lparr> txnNum = 3, ops = [?a] \<rparr>)]"
  have pre: "fillLoop sampleEnv [?a] (replicate (numThreads sampleEnv) [], []) =
      Inr ([[], [?a]], ?tr)"
    by code_simp
  have tr: "trackedOps sampleEnv ?tr sessionS = \<lparr> txnNum = 3, ops = [?a] \<rparr>"
    by (simp add: trackedOps_def)
  have threads: "0 < numThreads sampleEnv"
    by code_simp
  have b: "\<not> entryShouldPrepare sampleEnv ?b" "\<not> entryIsPreparedCommit sampleEnv ?b"
    "getOpType ?b \<noteq> kNoop" "getSessionId ?b = Some sessionS" "getTxnNumber ?b = Some 3"
    by code_simp+
  have c: "\<not> entryShouldPrepare sampleEnv ?c" "\<not> entryIsPreparedCommit sampleEnv ?c"
    "getOpType ?c \<noteq> kNoop" "getSessionId ?c = Some sessionS" "getTxnNumber ?c = Some 4"
    by code_simp+
  have d: "\<not> entryShouldPrepare sampleEnv ?d" "\<not> entryIsPreparedCommit sampleEnv ?d"
    "getOpType ?d \<noteq> kNoop" "getSessionId ?d = Some sessionS" "getTxnNumber ?d = Some 2"
    by code_simp+
  from session_tracking_step [OF pre b threads] tr
  have 1: "\<exists>wv' tracker'.
      fillLoop sampleEnv [?a, ?b] (replicate (numThreads sampleEnv) [], []) = Inr (wv', tracker')
      \<and> trackedOps sampleEnv tracker' sessionS = \<lparr> txnNum = 3, ops = [?a, ?b] \<rparr>"
    by (auto simp del: fillLoop.simps)
  from session_tracking_step [OF pre c threads] tr
  have 2: "\<exists>wv' tracker'.
      fillLoop sampleEnv [?a, ?c] (replicate (numThreads sampleEnv) [], []) = Inr (wv', tracker')
      \<and> trackedOps sampleEnv tracker' sessionS = \<lparr> txnNum = 4, ops = [?c] \<rparr>"
    by (auto simp del: fillLoop.simps)
  from session_tracking_step [OF pre d threads] tr
  have "\<forall>post derivedOps. \<exists>e.
      fillWriterVectors sampleEnv ([?a] @ ?d # post) derivedOps = (Inl e, derivedOps)
      \<and> e = DBException 4990401"
    by (auto simp del: fillLoop.simps)
  then have 3: "fillWriterVectors sampleEnv [?a, ?d, sampleOp kInsert 7 None None None] [] =
      (Inl (DBException 4990401), [])"
    by (metis append_Cons append_Nil)
  from 1 2 3 show ?thesis by blast
qed

subsection \<open>Routing by session\<close>

lemma addToWriterVector_routes:
  assumes add: "addToWriterVector env op wv = Inr wv'"
    and len: "length wv = numThreads env"
    and r: "routedBySession env wv"
  shows "length wv' = numThreads env \<and> routedBySession env wv'
     \<and> (\<forall>i<length wv. set (wv ! i) \<subseteq> set (wv' ! i))
     \<and> (\<forall>sid. getSessionId op = Some sid \<longrightarrow> op \<in> set (wv' ! slotOf env sid))"
proof -
  from add have n0: "length wv \<noteq> 0"
    by (auto simp: addToWriterVector_def split: if_splits)
  define j where "j = (case getSessionId op of
                          Some sid \<Rightarrow> lsidHash env sid mod length wv
                        | None \<Rightarrow> nssHash env (getNss op) mod length wv)"
  have j: "j < length wv"
    using n0 by (simp add: j_def split: option.splits)
  have wv': "wv' = wv[j := wv ! j @ [op]]"
    using add n0 by (simp add: addToWriterVector_def Let_def j_def)
  have nth: "wv' ! i = (if i = j then wv ! j @ [op] else wv ! i)" if "i < length wv" for i
    using that by (simp add: wv' nth_list_update)
  have jsid: "j = slotOf env sid" if "getSessionId op = Some sid" for sid
    using that len by (simp add: j_def)
  show ?thesis
  proof (intro conjI allI impI ballI)
    show "length wv' = numThreads env" by (simp add: wv' len)
  next
    fix i x sid
    assume i: "i < length wv'" and x: "x \<in> set (wv' ! i)" and s: "getSessionId x = Some sid"
    from i have i': "i < length wv" by (simp add: wv')
    show "i = slotOf env sid"
    proof (cases "x \<in> set (wv ! i)")
      case True
      with r i' s show ?thesis by blast
    next
      case False
      with x nth [OF i'] have "i = j" and "x = op" by (auto split: if_splits)
      with s jsid show ?thesis by simp
    qed
  next
    fix i assume "i < length wv"
    then show "set (wv ! i) \<subseteq> set (wv' ! i)" by (auto simp: nth)
  next
    fix sid assume s: "getSessionId op = Some sid"
    from jsid [OF s] j nth [of j] show "op \<in> set (wv' ! slotOf env sid)" by simp
  qed
qed

lemma set_storeTracked: "set (storeTracked sid l tr) \<subseteq> insert (sid, l) (set tr)"
  by (induction tr) (auto split: if_splits)

lemma trackedOps_member:
  "x \<in> set (ops (trackedOps env tr sid)) \<Longrightarrow> (sid, trackedOps env tr sid) \<in> set tr"
  by (auto simp: trackedOps_def split: option.splits dest: map_of_SomeD)

lemma trackSessionOp_tracks:
  assumes t: "trackSessionOp env op tr = Inr tr'"
    and inv: "\<forall>sid l x. (sid, l) \<in> set tr \<and> x \<in> set (ops l) \<longrightarrow>
                getSessionId x = Some sid \<and> getOpType x \<noteq> kNoop \<and> x \<in> S"
    and nn: "getOpType op \<noteq> kNoop"
  shows "\<forall>sid l x. (sid, l) \<in> set tr' \<and> x \<in> set (ops l) \<longrightarrow>
                getSessionId x = Some sid \<and> getOpType x \<noteq> kNoop \<and> x \<in> insert op S"
proof (cases "getSessionId op")
  case None
  with t have "tr' = tr" by (simp add: trackSessionOp_def)
  with inv show ?thesis by blast
next
  case (Some s)
  show ?thesis
  proof (intro allI impI)
    fix sid l x
    assume a: "(sid, l) \<in> set tr' \<and> x \<in> set (ops l)"
    from t Some obtain l' where tr': "tr' = storeTracked s l' tr"
      and l': "set (ops l') \<subseteq> insert op (set (ops (trackedOps env tr s)))"
      by (auto simp: trackSessionOp_def Let_def split: option.splits if_splits)
    from a tr' set_storeTracked [of s l' tr]
    have "(sid, l) = (s, l') \<or> (sid, l) \<in> set tr" by auto
    then show "getSessionId x = Some sid \<and> getOpType x \<noteq> kNoop \<and> x \<in> insert op S"
    proof
      assume eq: "(sid, l) = (s, l')"
      with a l' have "x = op \<or> x \<in> set (ops (trackedOps env tr s))" by auto
      then show ?thesis
      proof
        assume "x = op"
        with Some nn eq show ?thesis by simp
      next
        assume x: "x \<in> set (ops (trackedOps env tr s))"
        from trackedOps_member [OF x] x inv eq show ?thesis by blast
      qed
    next
      assume "(sid, l) \<in> set tr"
      with a inv show ?thesis by blast
    qed
  qed
qed

lemma push_routes:
  assumes j: "j < length wv"
    and len: "length wv = numThreads env"
    and r: "routedBySession env wv"
    and jsid: "\<forall>sid. getSessionId op = Some sid \<longrightarrow> j = slotOf env sid"
  shows "length (wv[j := wv ! j @ [op]]) = numThreads env
     \<and> routedBySession env (wv[j := wv ! j @ [op]])
     \<and> (\<forall>i<length wv. set (wv ! i) \<subseteq> set (wv[j := wv ! j @ [op]] ! i))
     \<and> op \<in> set (wv[j := wv ! j @ [op]] ! j)"
proof -
  let ?wv' = "wv[j := wv ! j @ [op]]"
  have nth: "?wv' ! i = (if i = j then wv ! j @ [op] else wv ! i)" if "i < length wv" for i
    using that by (simp add: nth_list_update)
  show ?thesis
  proof (intro conjI allI impI ballI)
    show "length ?wv' = numThreads env" by (simp add: len)
  next
    fix i x sid
    assume i: "i < length ?wv'" and x: "x \<in> set (?wv' ! i)" and s: "getSessionId x = Some sid"
    from i have i': "i < length wv" by simp
    show "i = slotOf env sid"
    proof (cases "x \<in> set (wv ! i)")
      case True
      with r i' s show ?thesis by blast
    next
      case False
      with x nth [OF i'] have "i = j" and "x = op" by (auto split: if_splits)
      with s jsid show ?thesis by simp
    qed
  next
    fix i assume "i < length wv"
    then show "set (wv ! i) \<subseteq> set (?wv' ! i)" by (auto simp: nth)
  next
    from j nth [of j] show "op \<in> set (?wv' ! j)" by simp
  qed
qed

lemma fillLoop_routes:
  assumes "fillLoop env batch (wv, tr) = Inr (wv', tr')"
    and "length wv = numThreads env"
    and "routedBySession env wv"
    and "trackedFrom tr S"
  shows "length wv' = numThreads env \<and> routedBySession env wv'
     \<and> (\<forall>i<length wv. set (wv ! i) \<subseteq> set (wv' ! i))
     \<and> (\<forall>op\<in>set batch. \<forall>sid. getOpType op \<noteq> kNoop \<and> getSessionId op = Some sid \<longrightarrow>
           op \<in> set (wv' ! slotOf env sid))
     \<and> trackedFrom tr' (S \<union> set batch)"
  using assms
proof (induction batch arbitrary: wv tr S)
  case Nil
  then show ?case by simp
next
  case (Cons x xs)
  from Cons.prems(1) have np: "\<not> entryShouldPrepare env x" "\<not> entryIsPreparedCommit env x"
    by (auto split: if_splits)
  show ?case
  proof (cases "getOpType x = kNoop")
    case True
    with Cons.prems(1) np have run: "fillLoop env xs (wv, tr) = Inr (wv', tr')" by simp
    from Cons.IH [OF run Cons.prems(2,3,4)] True show ?thesis
      by (simp del: fillLoop.simps)
  next
    case False
    from Cons.prems(1) np False obtain wv1 tr1
      where add: "addToWriterVector env x wv = Inr wv1"
        and trk: "trackSessionOp env x tr = Inr tr1"
        and run: "fillLoop env xs (wv1, tr1) = Inr (wv', tr')"
      by (auto split: sum.splits)
    from addToWriterVector_routes [OF add Cons.prems(2,3)]
    have len1: "length wv1 = numThreads env" and r1: "routedBySession env wv1"
      and mono1: "\<forall>i<length wv. set (wv ! i) \<subseteq> set (wv1 ! i)"
      and x1: "\<forall>sid. getSessionId x = Some sid \<longrightarrow> x \<in> set (wv1 ! slotOf env sid)"
      by blast+
    from trackSessionOp_tracks [OF trk Cons.prems(4) False]
    have t1: "trackedFrom tr1 (insert x S)" .
    from Cons.IH [OF run len1 r1 t1]
    have len': "length wv' = numThreads env" and r': "routedBySession env wv'"
      and mono': "\<forall>i<length wv1. set (wv1 ! i) \<subseteq> set (wv' ! i)"
      and xs': "\<forall>op\<in>set xs. \<forall>sid. getOpType op \<noteq> kNoop \<and> getSessionId op = Some sid \<longrightarrow>
           op \<in> set (wv' ! slotOf env sid)"
      and t': "trackedFrom tr' (insert x S \<union> set xs)"
      by blast+
    from add have n0: "numThreads env \<noteq> 0"
      using Cons.prems(2) by (auto simp: addToWriterVector_def split: if_splits)
    have slot: "slotOf env sid < length wv1" for sid
      using n0 len1 by simp
    have x': "\<forall>sid. getSessionId x = Some sid \<longrightarrow> x \<in> set (wv' ! slotOf env sid)"
      using x1 mono' slot by blast
    have mono: "\<forall>i<length wv. set (wv ! i) \<subseteq> set (wv' ! i)"
      using mono1 mono' len1 Cons.prems(2) by (metis subset_trans)
    have t'': "trackedFrom tr' (S \<union> set (x # xs))"
      using t' by simp
    from len' r' mono x' xs' t'' show ?thesis
      by (simp del: fillLoop.simps)
  qed
qed

lemma addDerivedOps_routes:
  assumes "addDerivedOpsToWriterVector env wv ds = Inr wv'"
    and "length wv = numThreads env"
    and "routedBySession env wv"
  shows "length wv' = numThreads env \<and> routedBySession env wv'
     \<and> (\<forall>i<length wv. set (wv ! i) \<subseteq> set (wv' ! i))
     \<and> (\<forall>d\<in>set ds. \<exists>sid. getSessionId d = Some sid \<and> d \<in> set (wv' ! slotOf env sid))"
  using assms
proof (induction ds arbitrary: wv)
  case Nil
  then show ?case by simp
next
  case (Cons d ds)
  from Cons.prems(1) obtain sid where sid: "getSessionId d = Some sid"
    and n0: "length wv \<noteq> 0"
    and run: "addDerivedOpsToWriterVector env
                (wv[slotOf env sid := wv ! slotOf env sid @ [d]]) ds = Inr wv'"
    using Cons.prems(2) by (auto simp: Let_def split: if_splits option.splits)
  let ?j = "slotOf env sid"
  let ?wv1 = "wv[?j := wv ! ?j @ [d]]"
  have j: "?j < length wv" using n0 Cons.prems(2) by simp
  have jsid: "\<forall>s. getSessionId d = Some s \<longrightarrow> ?j = slotOf env s" using sid by simp
  from push_routes [OF j Cons.prems(2,3) jsid]
  have len1: "length ?wv1 = numThreads env" and r1: "routedBySession env ?wv1"
    and mono1: "\<forall>i<length wv. set (wv ! i) \<subseteq> set (?wv1 ! i)"
    and d1: "d \<in> set (?wv1 ! ?j)"
    by blast+
  from Cons.IH [OF run len1 r1]
  have len': "length wv' = numThreads env" and r': "routedBySession env wv'"
    and mono': "\<forall>i<length ?wv1. set (?wv1 ! i) \<subseteq> set (wv' ! i)"
    and ds': "\<forall>d\<in>set ds. \<exists>sid. getSessionId d = Some sid \<and> d \<in> set (wv' ! slotOf env sid)"
    by blast+
  have d': "d \<in> set (wv' ! ?j)"
    using d1 mono' j by auto
  have mono: "\<forall>i<length wv. set (wv ! i) \<subseteq> set (wv' ! i)"
  proof (intro allI impI)
    fix i assume i: "i < length wv"
    with mono1 have "set (wv ! i) \<subseteq> set (?wv1 ! i)" by blast
    moreover from i mono' have "set (?wv1 ! i) \<subseteq> set (wv' ! i)" by simp
    ultimately show "set (wv ! i) \<subseteq> set (wv' ! i)" by (rule subset_trans)
  qed
  from len' r' mono d' ds' sid show ?case
    by (simp del: addDerivedOpsToWriterVector.simps)
qed

lemma getSessionId_convert:
  "getSessionId (convertToNoOpWithReshardingTag f op) = getSessionId op"
  by (simp add: convertToNoOpWithReshardingTag_def getSessionId_def)

lemma deriveOps_member:
  "d \<in> set (deriveOps env tr) \<Longrightarrow>
   \<exists>sid l op. (sid, l) \<in> set tr \<and> op \<in> set (ops l)
      \<and> d = convertToNoOpWithReshardingTag (entryToBSON env) op"
  by (fastforce simp: deriveOps_def)

text \<open>
  C1. Whenever partitioning of a batch succeeds, there is one slot per writer thread, and
  every record of every slot that carries a session identity is in the slot given by the
  hash of its session identity modulo the number of writers. Every data record of the batch
  with a session identity is in that slot, every derived shadow record carries a session
  identity and is in that slot, and every shadow record derived in this pass is the shadow
  of a data record of the batch with the same session identity: the shadow records of a
  session are in the slot of the session's real records. The shadow records are placed by
  \<^verbatim>\<open>addDerivedOpsToWriterVector\<close>; the real records are placed by the routing helper as the
  specification describes it.
\<close>

theorem session_records_share_slot:
  assumes fill: "fillWriterVectors env batch derivedOps = (Inr wv, derivedOps')"
  shows "length wv = numThreads env
     \<and> routedBySession env wv
     \<and> (\<forall>op\<in>set batch. \<forall>sid. getOpType op \<noteq> kNoop \<and> getSessionId op = Some sid \<longrightarrow>
           op \<in> set (wv ! slotOf env sid))
     \<and> (\<forall>d\<in>set derivedOps'. \<exists>sid. getSessionId d = Some sid \<and> d \<in> set (wv ! slotOf env sid))
     \<and> (\<exists>new. derivedOps' = derivedOps @ new
           \<and> (\<forall>d\<in>set new. \<exists>op\<in>set batch.
                 getOpType op \<noteq> kNoop \<and> getSessionId op = getSessionId d
                 \<and> d = convertToNoOpWithReshardingTag (entryToBSON env) op))"
proof -
  let ?init = "replicate (numThreads env) ([] :: OplogEntry list)"
  from fill obtain wv1 tr where loop: "fillLoop env batch (?init, []) = Inr (wv1, tr)"
    and d': "derivedOps' = derivedOps @ deriveOps env tr"
    and add: "addDerivedOpsToWriterVector env wv1 derivedOps' = Inr wv"
    by (auto simp: fillWriterVectors_def Let_def split: sum.splits prod.splits)
  have len0: "length ?init = numThreads env" by simp
  have r0: "routedBySession env ?init" by simp
  have t0: "trackedFrom [] {}" by simp
  from fillLoop_routes [OF loop len0 r0 t0]
  have len1: "length wv1 = numThreads env" and r1: "routedBySession env wv1"
    and real1: "\<forall>op\<in>set batch. \<forall>sid. getOpType op \<noteq> kNoop \<and> getSessionId op = Some sid \<longrightarrow>
           op \<in> set (wv1 ! slotOf env sid)"
    and tr: "trackedFrom tr ({} \<union> set batch)"
    by blast+
  from addDerivedOps_routes [OF add len1 r1]
  have len: "length wv = numThreads env" and r: "routedBySession env wv"
    and mono: "\<forall>i<length wv1. set (wv1 ! i) \<subseteq> set (wv ! i)"
    and der: "\<forall>d\<in>set derivedOps'. \<exists>sid. getSessionId d = Some sid \<and> d \<in> set (wv ! slotOf env sid)"
    by blast+
  have real: "\<forall>op\<in>set batch. \<forall>sid. getOpType op \<noteq> kNoop \<and> getSessionId op = Some sid \<longrightarrow>
           op \<in> set (wv ! slotOf env sid)"
  proof (intro ballI allI impI)
    fix op sid
    assume op: "op \<in> set batch" and a: "getOpType op \<noteq> kNoop \<and> getSessionId op = Some sid"
    with real1 have in1: "op \<in> set (wv1 ! slotOf env sid)" by blast
    have "numThreads env \<noteq> 0"
    proof
      assume "numThreads env = 0"
      with len1 have "wv1 = []" by simp
      with loop op a show False
      proof -
        from op obtain pre post where b: "batch = pre @ op # post"
          by (auto simp: in_set_conv_decomp)
        from loop b obtain st1 where p: "fillLoop env pre (?init, []) = Inr st1"
          and q: "fillLoop env (op # post) st1 = Inr (wv1, tr)"
          by (auto simp: fillLoop_append split: sum.splits simp del: fillLoop.simps)
        obtain w1 t1 where st1: "st1 = (w1, t1)" by (cases st1)
        from fillLoop_length [OF p [unfolded st1]] \<open>numThreads env = 0\<close> have "w1 = []" by simp
        with q a show False
          by (auto simp: st1 addToWriterVector_def split: if_splits)
      qed
    qed
    with len1 have "slotOf env sid < length wv1" by simp
    with mono in1 show "op \<in> set (wv ! slotOf env sid)" by blast
  qed
  have new: "\<forall>d\<in>set (deriveOps env tr). \<exists>op\<in>set batch.
                 getOpType op \<noteq> kNoop \<and> getSessionId op = getSessionId d
                 \<and> d = convertToNoOpWithReshardingTag (entryToBSON env) op"
  proof
    fix d assume "d \<in> set (deriveOps env tr)"
    from deriveOps_member [OF this] obtain sid l op
      where m: "(sid, l) \<in> set tr" "op \<in> set (ops l)"
        and d: "d = convertToNoOpWithReshardingTag (entryToBSON env) op"
      by blast
    from tr m have "getOpType op \<noteq> kNoop" and "op \<in> set batch" by auto
    with d show "\<exists>op\<in>set batch.
                 getOpType op \<noteq> kNoop \<and> getSessionId op = getSessionId d
                 \<and> d = convertToNoOpWithReshardingTag (entryToBSON env) op"
      by (auto simp: getSessionId_convert)
  qed
  from len r real der d' new show ?thesis by blast
qed

theorem session_records_share_slot_witness:
  "fillWriterVectors sampleEnv
     [sampleOp kInsert 5 (Some sessionS) (Some 1) (Some 0),
      sampleOp kUpdate 6 (Some sessionS) (Some 1) (Some 1),
      sampleOp kInsert 7 (Some sessionT) (Some 1) (Some 0)] [] =
   (Inr [[sampleOp kInsert 7 (Some sessionT) (Some 1) (Some 0),
          convertToNoOpWithReshardingTag sampleToBSON
            (sampleOp kInsert 7 (Some sessionT) (Some 1) (Some 0))],
         [sampleOp kInsert 5 (Some sessionS) (Some 1) (Some 0),
          sampleOp kUpdate 6 (Some sessionS) (Some 1) (Some 1),
          convertToNoOpWithReshardingTag sampleToBSON
            (sampleOp kInsert 5 (Some sessionS) (Some 1) (Some 0)),
          convertToNoOpWithReshardingTag sampleToBSON
            (sampleOp kUpdate 6 (Some sessionS) (Some 1) (Some 1))]],
        [convertToNoOpWithReshardingTag sampleToBSON
           (sampleOp kInsert 7 (Some sessionT) (Some 1) (Some 0)),
         convertToNoOpWithReshardingTag sampleToBSON
           (sampleOp kInsert 5 (Some sessionS) (Some 1) (Some 0)),
         convertToNoOpWithReshardingTag sampleToBSON
           (sampleOp kUpdate 6 (Some sessionS) (Some 1) (Some 1))])
   \<and> slotOf sampleEnv sessionS = 1
   \<and> sampleOp kInsert 5 (Some sessionS) (Some 1) (Some 0) \<in>
       set ([[sampleOp kInsert 7 (Some sessionT) (Some 1) (Some 0),
          convertToNoOpWithReshardingTag sampleToBSON
            (sampleOp kInsert 7 (Some sessionT) (Some 1) (Some 0))],
         [sampleOp kInsert 5 (Some sessionS) (Some 1) (Some 0),
          sampleOp kUpdate 6 (Some sessionS) (Some 1) (Some 1),
          convertToNoOpWithReshardingTag sampleToBSON
            (sampleOp kInsert 5 (Some sessionS) (Some 1) (Some 0)),
          convertToNoOpWithReshardingTag sampleToBSON
            (sampleOp kUpdate 6 (Some sessionS) (Some 1) (Some 1))]] ! slotOf sampleEnv sessionS)
   \<and> convertToNoOpWithReshardingTag sampleToBSON
        (sampleOp kInsert 5 (Some sessionS) (Some 1) (Some 0)) \<in>
       set ([[sampleOp kInsert 7 (Some sessionT) (Some 1) (Some 0),
          convertToNoOpWithReshardingTag sampleToBSON
            (sampleOp kInsert 7 (Some sessionT) (Some 1) (Some 0))],
         [sampleOp kInsert 5 (Some sessionS) (Some 1) (Some 0),
          sampleOp kUpdate 6 (Some sessionS) (Some 1) (Some 1),
          convertToNoOpWithReshardingTag sampleToBSON
            (sampleOp kInsert 5 (Some sessionS) (Some 1) (Some 0)),
          convertToNoOpWithReshardingTag sampleToBSON
            (sampleOp kUpdate 6 (Some sessionS) (Some 1) (Some 1))]] ! slotOf sampleEnv sessionS)"
proof -
  let ?a = "sampleOp kInsert 5 (Some sessionS) (Some 1) (Some 0)"
  let ?b = "sampleOp kUpdate 6 (Some sessionS) (Some 1) (Some 1)"
  let ?c = "sampleOp kInsert 7 (Some sessionT) (Some 1) (Some 0)"
  let ?conv = "convertToNoOpWithReshardingTag sampleToBSON"
  let ?W = "[[?c, ?conv ?c], [?a, ?b, ?conv ?a, ?conv ?b]]"
  let ?D = "[?conv ?c, ?conv ?a, ?conv ?b]"
  have ev: "fillWriterVectors sampleEnv [?a, ?b, ?c] [] = (Inr ?W, ?D)"
    by code_simp
  have slot: "slotOf sampleEnv sessionS = 1"
    by code_simp
  have a: "getOpType ?a \<noteq> kNoop \<and> getSessionId ?a = Some sessionS"
    by code_simp
  have ca: "getSessionId (?conv ?a) = Some sessionS"
    by code_simp
  note T = session_records_share_slot [OF ev]
  from T have real: "\<forall>op\<in>set [?a, ?b, ?c]. \<forall>sid.
      getOpType op \<noteq> kNoop \<and> getSessionId op = Some sid \<longrightarrow> op \<in> set (?W ! slotOf sampleEnv sid)"
    by blast
  from T have der: "\<forall>d\<in>set ?D. \<exists>sid.
      getSessionId d = Some sid \<and> d \<in> set (?W ! slotOf sampleEnv sid)"
    by blast
  from real a have 1: "?a \<in> set (?W ! slotOf sampleEnv sessionS)"
    by (meson list.set_intros(1))
  from der have "\<exists>sid. getSessionId (?conv ?a) = Some sid \<and> ?conv ?a \<in> set (?W ! slotOf sampleEnv sid)"
    by (meson list.set_intros(1) list.set_intros(2))
  with ca have 2: "?conv ?a \<in> set (?W ! slotOf sampleEnv sessionS)"
    by (metis option.inject)
  from ev slot 1 2 show ?thesis by blast
qed

subsection \<open>A failed batch\<close>

lemma lastNotOK_member:
  "lastNotOK OK sts = NotOK c \<Longrightarrow> NotOK c \<in> set sts"
proof -
  assume a: "lastNotOK OK sts = NotOK c"
  show ?thesis
  proof (cases "filter (\<lambda>st. \<not> isOK st) sts")
    case Nil
    with a show ?thesis by (simp add: lastNotOK_def)
  next
    case (Cons e es)
    then have "last (e # es) \<in> set (filter (\<lambda>st. \<not> isOK st) sts)"
      by (metis last_in_set list.distinct(1))
    then have "last (e # es) \<in> set sts" by simp
    moreover from a Cons have "last (e # es) = NotOK c" by (simp add: lastNotOK_def)
    ultimately show ?thesis by simp
  qed
qed

lemma applyBatch_failed_writer:
  assumes fill: "fillWriterVectors env (currentBatchToApply a) (currentDerivedOps a) = (Inr wv, derived)"
    and order: "mset (completionOrder env wv) = mset wv"
    and bad: "\<exists>writer\<in>set wv. writer \<noteq> [] \<and> \<not> isOK (writerStatus env writer)"
  shows "\<exists>c a'. applyBatch env a = (Inl (DBException c), a')
      \<and> (\<exists>writer\<in>set wv. writer \<noteq> [] \<and> writerStatus env writer = NotOK c)
      \<and> currentBatchToApply a' = currentBatchToApply a
      \<and> currentDerivedOps a' = derived
      \<and> currentWriterVectors a' = wv
      \<and> stage a' = stage a \<and> oplogIter a' = oplogIter a"
proof -
  define a1 where "a1 = a\<lparr>currentDerivedOps := derived,
                     currentWriterVectors := wv,
                     currentApplyBatchPromise := None,
                     remainingWritersToWait := length wv,
                     currentBatchConsolidatedStatus := OK\<rparr>"
  define reports where "reports = map (\<lambda>writer. if writer = [] then OK else writerStatus env writer)
                            (completionOrder env wv)"
  from order have len: "length (completionOrder env wv) = length wv"
    by (metis size_mset)
  from order have sets: "set (completionOrder env wv) = set wv"
    by (metis set_mset_mset)
  have lenr: "length reports = length wv" by (simp add: reports_def len)
  from bad sets have nonok: "\<not> list_all isOK reports"
    by (auto simp: reports_def list_all_iff)
  then have ne: "reports \<noteq> []" by auto
  have "length reports \<le> remainingWritersToWait a1" by (simp add: a1_def lenr)
  from onWriterVectorsDone_run [OF this]
  obtain a2 where run: "onWriterVectorsDone reports a1 = Inr a2"
    and a2: "a2 = a1\<lparr>remainingWritersToWait := remainingWritersToWait a1 - length reports,
            currentBatchConsolidatedStatus := lastNotOK (currentBatchConsolidatedStatus a1) reports,
            currentApplyBatchPromise :=
              (if reports \<noteq> [] \<and> length reports = remainingWritersToWait a1
               then Some (lastNotOK (currentBatchConsolidatedStatus a1) reports)
               else currentApplyBatchPromise a1)\<rparr>"
    by blast
  have prom: "currentApplyBatchPromise a2 = Some (lastNotOK OK reports)"
    using ne lenr by (simp add: a2 a1_def)
  from nonok have "\<not> isOK (lastNotOK OK reports)" by (simp add: isOK_lastNotOK)
  then obtain c where c: "lastNotOK OK reports = NotOK c"
    by (cases "lastNotOK OK reports") auto
  from lastNotOK_member [OF c] sets
  have w: "\<exists>writer\<in>set wv. writer \<noteq> [] \<and> writerStatus env writer = NotOK c"
    by (auto simp: reports_def split: if_splits)
  have res: "applyBatch env a = (Inl (DBException c), a2)"
    using fill run prom c
    by (simp add: applyBatch_def Let_def a1_def [symmetric] reports_def [symmetric])
  have "currentBatchToApply a2 = currentBatchToApply a \<and> currentDerivedOps a2 = derived
      \<and> currentWriterVectors a2 = wv \<and> stage a2 = stage a \<and> oplogIter a2 = oplogIter a"
    by (simp add: a2 a1_def)
  with res w show ?thesis by blast
qed

text \<open>
  C4. Take a round of the pipeline, in any state of the applier, in which the batch is
  fetched, preprocessed and partitioned, every slot reports once, and the writer of some
  non-empty slot reports a non-OK status. Then the round ends with the status of a failed
  writer; the progress collection is as before the round, so no checkpoint is written; the
  batch buffer and the buffer of derived entries keep the contents they had when the batch
  was applied; no further batch is scheduled; and \<^verbatim>\<open>applyUntilCloneFinishedTs\<close> and
  \<^verbatim>\<open>applyUntilDone\<close> set the stage to \<^verbatim>\<open>kErrorOccurred\<close> and return that status.
\<close>

theorem failed_batch_no_checkpoint:
  assumes fetch: "getNextBatch a = (Inr batch, a1)"
    and pre: "preProcessBatch cfg batch a1 = (Inr (), a2)"
    and fill: "fillWriterVectors env (currentBatchToApply a2) (currentDerivedOps a2) = (Inr wv, derived)"
    and order: "mset (completionOrder env wv) = mset wv"
    and bad: "\<exists>writer\<in>set wv. writer \<noteq> [] \<and> \<not> isOK (writerStatus env writer)"
  shows "\<exists>c a3.
       runBatch env cfg (a, docs) = (Inl (DBException c), a3, docs)
     \<and> (\<exists>writer\<in>set wv. writer \<noteq> [] \<and> writerStatus env writer = NotOK c)
     \<and> currentBatchToApply a3 = currentBatchToApply a2
     \<and> currentDerivedOps a3 = derived
     \<and> stage a3 = stage a
     \<and> scheduleNextBatch env cfg (a, docs) = (Inl (DBException c), a3, docs)
     \<and> (stage a = kStarted \<longrightarrow>
          applyUntilCloneFinishedTs env cfg (a, docs) =
            (Inl (DBException c), a3\<lparr>stage := kErrorOccurred\<rparr>, docs))
     \<and> (stage a = kReachedCloningTS \<longrightarrow>
          applyUntilDone env cfg (a, docs) =
            (Inl (DBException c), a3\<lparr>stage := kErrorOccurred\<rparr>, docs))"
proof -
  from applyBatch_failed_writer [OF fill order bad]
  obtain c a3 where ap: "applyBatch env a2 = (Inl (DBException c), a3)"
    and w: "\<exists>writer\<in>set wv. writer \<noteq> [] \<and> writerStatus env writer = NotOK c"
    and buf: "currentBatchToApply a3 = currentBatchToApply a2"
    and der: "currentDerivedOps a3 = derived"
    and st3: "stage a3 = stage a2"
    by blast
  from preProcessBatch_frame [OF pre] have st2: "stage a2 = stage a1" by simp
  from fetch have st1: "stage a1 = stage a"
    by (auto simp: getNextBatch_def split: list.splits)
  have run: "runBatch env cfg (a, docs) = (Inl (DBException c), a3, docs)"
    using fetch pre ap by (simp add: runBatch_def)
  then have sched: "scheduleNextBatch env cfg (a, docs) = (Inl (DBException c), a3, docs)"
    by simp
  have err: "withOnError (Inl (DBException c), a3, docs) =
      (Inl (DBException c), a3\<lparr>stage := kErrorOccurred\<rparr>, docs)"
    by (simp add: withOnError_def onError_def)
  from run w buf der st3 st2 st1 sched err show ?thesis
    by (auto simp: applyUntilCloneFinishedTs_def applyUntilDone_def simp del: scheduleNextBatch.simps)
qed

theorem failed_batch_no_checkpoint_witness:
  "\<exists>c a3.
     applyUntilCloneFinishedTs sampleEnv sampleConfig
       (initialApplier\<lparr>oplogIter := [Inr [sampleDelete]]\<rparr>, []) =
       (Inl (DBException c), a3\<lparr>stage := kErrorOccurred\<rparr>, [])
     \<and> writerStatus sampleEnv [sampleDeleteBuffered] = NotOK c
     \<and> currentBatchToApply a3 = [sampleDeleteBuffered]
     \<and> checkStoredProgress [] (sourceId sampleConfig) = None"
proof -
  let ?a0 = "initialApplier\<lparr>oplogIter := [Inr [sampleDelete]]\<rparr>"
  let ?a2 = "initialApplier\<lparr>currentBatchToApply := [sampleDeleteBuffered]\<rparr>"
  let ?wv = "[[sampleDeleteBuffered], []]"
  have fetch: "getNextBatch ?a0 = (Inr [sampleDelete], initialApplier)"
    by code_simp
  have pre: "preProcessBatch sampleConfig [sampleDelete] initialApplier = (Inr (), ?a2)"
    by code_simp
  have fill: "fillWriterVectors sampleEnv (currentBatchToApply ?a2) (currentDerivedOps ?a2) =
      (Inr ?wv, [])"
    by code_simp
  have order: "mset (completionOrder sampleEnv ?wv) = mset ?wv"
    by (simp add: sampleEnv_def)
  have bad: "\<exists>writer\<in>set ?wv. writer \<noteq> [] \<and> \<not> isOK (writerStatus sampleEnv writer)"
    by code_simp
  have started: "stage ?a0 = kStarted"
    by code_simp
  have buf: "currentBatchToApply ?a2 = [sampleDeleteBuffered]"
    by simp
  have none: "checkStoredProgress [] (sourceId sampleConfig) = None"
    by (simp add: checkStoredProgress_def findOneProgress_def)
  from failed_batch_no_checkpoint [OF fetch pre fill order bad, where docs = "[]"] started buf
  obtain c a3 where
    "applyUntilCloneFinishedTs sampleEnv sampleConfig (?a0, []) =
       (Inl (DBException c), a3\<lparr>stage := kErrorOccurred\<rparr>, [])"
    and "\<exists>writer\<in>set ?wv. writer \<noteq> [] \<and> writerStatus sampleEnv writer = NotOK c"
    and "currentBatchToApply a3 = [sampleDeleteBuffered]"
    by auto
  with none show ?thesis by auto
qed

subsection \<open>The checkpoint\<close>

lemma find_upsertProgress_same:
  "find (\<lambda>doc. oplogSourceId doc = sid) (upsertProgress sid tok docs) =
     Some \<lparr> oplogSourceId = sid, progress = tok \<rparr>"
  by (induction docs) auto

lemma find_upsertProgress_other:
  "other \<noteq> sid \<Longrightarrow>
   find (\<lambda>doc. oplogSourceId doc = other) (upsertProgress sid tok docs) =
     find (\<lambda>doc. oplogSourceId doc = other) docs"
  by (induction docs) auto

lemma find_absent:
  "\<forall>doc\<in>set docs. oplogSourceId doc \<noteq> sid \<Longrightarrow> find (\<lambda>doc. oplogSourceId doc = sid) docs = None"
  by (induction docs) auto

text \<open>
  C7. When the batch buffer is not empty, its last entry has an id and the id parses as a
  donor oplog id, the checkpoint upserts that id into the progress collection under the
  source id of this applier, empties the batch buffer and the buffer of derived entries, and
  returns the timestamp of the last entry; this is what the pipeline does after a batch has
  been applied. \<^verbatim>\<open>checkStoredProgress\<close> for the source id then returns exactly that id, and
  the progress of other streams is not changed. On a collection with no document of the
  stream, the empty collection among them, \<^verbatim>\<open>checkStoredProgress\<close> returns nothing.
\<close>

theorem checkpoint_stores_progress:
  assumes ne: "currentBatchToApply a \<noteq> []"
    and id: "get_id (last (currentBatchToApply a)) = Some v"
    and parse: "parseDonorOplogId env v = Inr oplogId"
  shows "clearAppliedOpsAndStoreProgress env cfg (a, docs) =
           (Inr (getTimestamp (last (currentBatchToApply a))),
            a\<lparr>currentBatchToApply := [], currentDerivedOps := []\<rparr>,
            upsertProgress (sourceId cfg) oplogId docs)
     \<and> checkStoredProgress (upsertProgress (sourceId cfg) oplogId docs) (sourceId cfg) =
           Some \<lparr> oplogSourceId = sourceId cfg, progress = oplogId \<rparr>
     \<and> (\<forall>other. other \<noteq> sourceId cfg \<longrightarrow>
           checkStoredProgress (upsertProgress (sourceId cfg) oplogId docs) other =
           checkStoredProgress docs other)
     \<and> checkStoredProgress [] (sourceId cfg) = None
     \<and> ((\<forall>doc\<in>set docs. oplogSourceId doc \<noteq> sourceId cfg) \<longrightarrow>
           checkStoredProgress docs (sourceId cfg) = None)
     \<and> (\<exists>moreToApply a'.
           afterApply env cfg (a, docs) =
             (Inr moreToApply, a', upsertProgress (sourceId cfg) oplogId docs)
           \<and> currentBatchToApply a' = [] \<and> currentDerivedOps a' = [])"
proof -
  have cl: "clearAppliedOpsAndStoreProgress env cfg (a, docs) =
           (Inr (getTimestamp (last (currentBatchToApply a))),
            a\<lparr>currentBatchToApply := [], currentDerivedOps := []\<rparr>,
            upsertProgress (sourceId cfg) oplogId docs)"
    using ne id parse by (simp add: clearAppliedOpsAndStoreProgress_def Let_def)
  have same: "checkStoredProgress (upsertProgress (sourceId cfg) oplogId docs) (sourceId cfg) =
           Some \<lparr> oplogSourceId = sourceId cfg, progress = oplogId \<rparr>"
    by (simp add: checkStoredProgress_def findOneProgress_def find_upsertProgress_same)
  have other: "\<forall>other. other \<noteq> sourceId cfg \<longrightarrow>
           checkStoredProgress (upsertProgress (sourceId cfg) oplogId docs) other =
           checkStoredProgress docs other"
    by (simp add: checkStoredProgress_def findOneProgress_def find_upsertProgress_other)
  have empty: "checkStoredProgress [] (sourceId cfg) = None"
    by (simp add: checkStoredProgress_def findOneProgress_def)
  have absent: "(\<forall>doc\<in>set docs. oplogSourceId doc \<noteq> sourceId cfg) \<longrightarrow>
           checkStoredProgress docs (sourceId cfg) = None"
    by (simp add: checkStoredProgress_def findOneProgress_def find_absent)
  have after: "\<exists>moreToApply a'.
           afterApply env cfg (a, docs) =
             (Inr moreToApply, a', upsertProgress (sourceId cfg) oplogId docs)
           \<and> currentBatchToApply a' = [] \<and> currentDerivedOps a' = []"
    using ne cl by (auto simp: afterApply_def)
  from cl same other empty absent after show ?thesis by blast
qed

theorem checkpoint_stores_progress_witness:
  "clearAppliedOpsAndStoreProgress sampleEnv sampleConfig
     (initialApplier\<lparr>currentBatchToApply :=
        [sampleOp kInsert 5 None None None, sampleOp kInsert 9 None None None],
        currentDerivedOps := [convertToNoOpWithReshardingTag sampleToBSON sampleDelete]\<rparr>,
      [\<lparr> oplogSourceId = sourceId sampleConfig,
         progress = BObj [(''clusterTime'', BTimestamp 2), (''ts'', BTimestamp 2)] \<rparr>]) =
     (Inr 9, initialApplier,
      [\<lparr> oplogSourceId = sourceId sampleConfig,
         progress = BObj [(''clusterTime'', BTimestamp 9), (''ts'', BTimestamp 9)] \<rparr>])
   \<and> checkStoredProgress
        (upsertProgress (sourceId sampleConfig)
           (BObj [(''clusterTime'', BTimestamp 9), (''ts'', BTimestamp 9)]) [])
        (sourceId sampleConfig) =
       Some \<lparr> oplogSourceId = sourceId sampleConfig,
              progress = BObj [(''clusterTime'', BTimestamp 9), (''ts'', BTimestamp 9)] \<rparr>"
proof -
  let ?a = "initialApplier\<lparr>currentBatchToApply :=
        [sampleOp kInsert 5 None None None, sampleOp kInsert 9 None None None],
        currentDerivedOps := [convertToNoOpWithReshardingTag sampleToBSON sampleDelete]\<rparr>"
  let ?tok = "BObj [(''clusterTime'', BTimestamp 9), (''ts'', BTimestamp 9)]"
  have ne: "currentBatchToApply ?a \<noteq> []" by simp
  have id: "get_id (last (currentBatchToApply ?a)) = Some ?tok" by code_simp
  have parse: "parseDonorOplogId sampleEnv ?tok = Inr ?tok" by code_simp
  have ts: "getTimestamp (last (currentBatchToApply ?a)) = 9" by code_simp
  have cleared: "?a\<lparr>currentBatchToApply := [], currentDerivedOps := []\<rparr> = initialApplier"
    by (simp add: initialApplier_def)
  have ups: "upsertProgress (sourceId sampleConfig) ?tok
       [\<lparr> oplogSourceId = sourceId sampleConfig,
          progress = BObj [(''clusterTime'', BTimestamp 2), (''ts'', BTimestamp 2)] \<rparr>] =
       [\<lparr> oplogSourceId = sourceId sampleConfig, progress = ?tok \<rparr>]"
    by simp
  from checkpoint_stores_progress [OF ne id parse, of sampleConfig
         "[\<lparr> oplogSourceId = sourceId sampleConfig,
             progress = BObj [(''clusterTime'', BTimestamp 2), (''ts'', BTimestamp 2)] \<rparr>]"]
       checkpoint_stores_progress [OF ne id parse, of sampleConfig "[]"]
       ts cleared ups
  show ?thesis by simp
qed

subsection \<open>An empty batch\<close>

lemma applyBatch_all_ok:
  assumes fill: "fillWriterVectors env (currentBatchToApply a) (currentDerivedOps a) = (Inr wv, derived)"
    and order: "mset (completionOrder env wv) = mset wv"
    and ne: "wv \<noteq> []"
    and ok: "\<forall>writer\<in>set wv. writer = [] \<or> isOK (writerStatus env writer)"
  shows "applyBatch env a =
     (Inr (), a\<lparr>currentDerivedOps := derived,
                 currentWriterVectors := wv,
                 currentApplyBatchPromise := Some OK,
                 remainingWritersToWait := 0,
                 currentBatchConsolidatedStatus := OK\<rparr>)"
proof -
  define a1 where "a1 = a\<lparr>currentDerivedOps := derived,
                     currentWriterVectors := wv,
                     currentApplyBatchPromise := None,
                     remainingWritersToWait := length wv,
                     currentBatchConsolidatedStatus := OK\<rparr>"
  define reports where "reports = map (\<lambda>writer. if writer = [] then OK else writerStatus env writer)
                            (completionOrder env wv)"
  from order have len: "length (completionOrder env wv) = length wv"
    by (metis size_mset)
  from order have sets: "set (completionOrder env wv) = set wv"
    by (metis set_mset_mset)
  have lenr: "length reports = length wv" by (simp add: reports_def len)
  from ok sets have allok: "list_all isOK reports"
    by (auto simp: reports_def list_all_iff)
  from ne lenr have ner: "reports \<noteq> []" by auto
  have last: "lastNotOK OK reports = OK"
    using allok isOK_lastNotOK [of reports] by (cases "lastNotOK OK reports") auto
  have "length reports \<le> remainingWritersToWait a1" by (simp add: a1_def lenr)
  from onWriterVectorsDone_run [OF this]
  have run: "onWriterVectorsDone reports a1 =
      Inr (a\<lparr>currentDerivedOps := derived,
                 currentWriterVectors := wv,
                 currentApplyBatchPromise := Some OK,
                 remainingWritersToWait := 0,
                 currentBatchConsolidatedStatus := OK\<rparr>)"
    using ner lenr last by (simp add: a1_def)
  show ?thesis
    using fill run
    by (simp add: applyBatch_def Let_def a1_def [symmetric] reports_def [symmetric])
qed

text \<open>
  C8, as the code has it. In stage \<^verbatim>\<open>kStarted\<close>, with empty buffers and at least one writer
  thread, a fetched batch that is empty does not make the pipeline fail: the round reports
  that there is no more to apply, no checkpoint is written, no further batch is scheduled,
  and \<^verbatim>\<open>applyUntilCloneFinishedTs\<close> completes. The pipeline itself sets the stage to
  \<^verbatim>\<open>kReachedCloningTS\<close>; the timestamp of the cloning plays no part.
\<close>

theorem empty_batch_reaches_cloning_ts:
  assumes started: "stage a = kStarted"
    and fetch: "getNextBatch a = (Inr [], a1)"
    and buf: "currentBatchToApply a = []"
    and der: "currentDerivedOps a = []"
    and threads: "0 < numThreads env"
    and order: "mset (completionOrder env (replicate (numThreads env) [])) =
                mset (replicate (numThreads env) [])"
  shows "\<exists>a'. runBatch env cfg (a, docs) = (Inr False, a', docs)
     \<and> applyUntilCloneFinishedTs env cfg (a, docs) = (Inr (), a', docs)
     \<and> stage a' = kReachedCloningTS
     \<and> currentBatchToApply a' = []
     \<and> currentDerivedOps a' = []
     \<and> oplogIter a' = oplogIter a1"
proof -
  let ?wv = "replicate (numThreads env) ([] :: OplogEntry list)"
  from fetch have a1: "currentBatchToApply a1 = currentBatchToApply a"
    "currentDerivedOps a1 = currentDerivedOps a" "stage a1 = stage a"
    by (auto simp: getNextBatch_def split: list.splits)
  have fill: "fillWriterVectors env (currentBatchToApply a1) (currentDerivedOps a1) = (Inr ?wv, [])"
    using a1 buf der by (simp add: fillWriterVectors_def deriveOps_def)
  have ne: "?wv \<noteq> []" using threads by simp
  have ok: "\<forall>writer\<in>set ?wv. writer = [] \<or> isOK (writerStatus env writer)" by simp
  define a3 where "a3 = a1\<lparr>currentDerivedOps := [],
                 currentWriterVectors := ?wv,
                 currentApplyBatchPromise := Some OK,
                 remainingWritersToWait := 0,
                 currentBatchConsolidatedStatus := OK\<rparr>"
  from applyBatch_all_ok [OF fill order ne ok]
  have ap: "applyBatch env a1 = (Inr (), a3)" by (simp add: a3_def)
  have af: "afterApply env cfg (a3, docs) = (Inr False, a3\<lparr>stage := kReachedCloningTS\<rparr>, docs)"
    using a1 buf started by (simp add: afterApply_def a3_def)
  have run: "runBatch env cfg (a, docs) = (Inr False, a3\<lparr>stage := kReachedCloningTS\<rparr>, docs)"
    using fetch ap af by (simp add: runBatch_def)
  then have sched: "scheduleNextBatch env cfg (a, docs) =
      (Inr (), a3\<lparr>stage := kReachedCloningTS\<rparr>, docs)"
    by simp
  have app: "applyUntilCloneFinishedTs env cfg (a, docs) =
      (Inr (), a3\<lparr>stage := kReachedCloningTS\<rparr>, docs)"
    using started sched
    by (simp add: applyUntilCloneFinishedTs_def withOnError_def del: scheduleNextBatch.simps)
  from run app a1 buf show ?thesis
    by (simp add: a3_def del: scheduleNextBatch.simps)
qed

theorem empty_batch_reaches_cloning_ts_witness:
  "applyUntilCloneFinishedTs sampleEnv sampleConfig (initialApplier, []) =
     (Inr (),
      initialApplier\<lparr>stage := kReachedCloningTS,
                       currentWriterVectors := [[], []],
                       currentApplyBatchPromise := Some OK\<rparr>,
      [])"
proof -
  have started: "stage initialApplier = kStarted" by code_simp
  have fetch: "getNextBatch initialApplier = (Inr [], initialApplier)" by code_simp
  have buf: "currentBatchToApply initialApplier = []" by code_simp
  have der: "currentDerivedOps initialApplier = []" by code_simp
  have threads: "0 < numThreads sampleEnv" by code_simp
  have order: "mset (completionOrder sampleEnv (replicate (numThreads sampleEnv) [])) =
                mset (replicate (numThreads sampleEnv) [])"
    by (simp add: sampleEnv_def)
  have ev: "fst (snd (applyUntilCloneFinishedTs sampleEnv sampleConfig (initialApplier, []))) =
      initialApplier\<lparr>stage := kReachedCloningTS,
                       currentWriterVectors := [[], []],
                       currentApplyBatchPromise := Some OK\<rparr>"
    by code_simp
  from empty_batch_reaches_cloning_ts [OF started fetch buf der threads order, of sampleConfig "[]"]
  obtain a' where "applyUntilCloneFinishedTs sampleEnv sampleConfig (initialApplier, []) =
      (Inr (), a', [])" by blast
  with ev show ?thesis by simp
qed

text \<open>
  The claim as the specification words it fails: the decision is not left to the caller.
  On an applier whose iterator has nothing, the call completes without error and the stage
  has moved from \<^verbatim>\<open>kStarted\<close> to \<^verbatim>\<open>kReachedCloningTS\<close>.
\<close>

theorem empty_batch_stage_not_left_to_caller:
  "fst (applyUntilCloneFinishedTs sampleEnv sampleConfig (initialApplier, [])) = Inr ()
   \<and> stage (fst (snd (applyUntilCloneFinishedTs sampleEnv sampleConfig (initialApplier, [])))) =
       kReachedCloningTS
   \<and> stage (fst (snd (applyUntilCloneFinishedTs sampleEnv sampleConfig (initialApplier, [])))) \<noteq>
       stage initialApplier"
  by code_simp

subsection \<open>Shadow entries applied twice\<close>

lemma beginOrContinue_result:
  assumes "beginOrContinue env node sid txn = Inr n1"
  shows "activeTxnNumber (participantOf env n1 sid) = txn
     \<and> \<not> preparedTxnInProgress (participantOf env n1 sid)"
  using assms
  by (auto simp: beginOrContinue_def Let_def participantOf_store split: if_splits)

lemma beginOrContinue_resume:
  assumes "activeTxnNumber (participantOf env node sid) = txn"
    and "\<not> preparedTxnInProgress (participantOf env node sid)"
  shows "beginOrContinue env node sid txn = Inr node"
  using assms by (simp add: beginOrContinue_def Let_def)

lemma beginOrContinue_not_incomplete:
  "beginOrContinue env node sid txn \<noteq> Inl IncompleteTransactionHistory"
  by (simp add: beginOrContinue_def Let_def)

lemma checkStatementExecuted_not_too_old:
  "checkStatementExecuted env node sid stmtId \<noteq> Inl TransactionTooOld"
  by (simp add: checkStatementExecuted_def Let_def)

lemma participantOf_logOp:
  "participantOf env (snd (logOp e node)) sid = participantOf env node sid"
  by (simp add: logOp_def participantOf_def Let_def)

lemma participantOf_prePost:
  "insertPrePostImageOplogEntry now e node = (r, node') \<Longrightarrow>
   participantOf env node' sid = participantOf env node sid"
  by (auto simp: insertPrePostImageOplogEntry_def logOp_def participantOf_def Let_def
      split: if_splits prod.splits)

lemma writeRetryableMarker_records:
  assumes w: "writeRetryableMarker env now oplog sid txn stmtId node = (Inr OK, node')"
    and np: "\<not> preparedTxnInProgress (participantOf env node sid)"
  shows "activeTxnNumber (participantOf env node' sid) = txn
     \<and> \<not> preparedTxnInProgress (participantOf env node' sid)
     \<and> stmtId \<in> set (committedStatements (participantOf env node' sid))"
proof -
  from w obtain t node1 where
    pp: "(case getPreImageOp oplog of
              Some preImageOp \<Rightarrow> insertPrePostImageOplogEntry now preImageOp node
            | None \<Rightarrow>
                (case getPostImageOp oplog of
                   Some postImageOp \<Rightarrow> insertPrePostImageOplogEntry now postImageOp node
                 | None \<Rightarrow> (Inr nullOpTime, node))) = (Inr t, node1)"
    by (auto simp: writeRetryableMarker_def split: prod.splits sum.splits)
  have p1: "participantOf env node1 sid = participantOf env node sid"
    using pp by (auto split: option.splits dest: participantOf_prePost)
  from w pp have "\<exists>e ot node2. logOp e node1 = (ot, node2)
      \<and> node' = onRetryableWriteCloningCompleted env sid txn [stmtId] ot node2"
    by (auto simp: writeRetryableMarker_def Let_def split: prod.splits if_splits)
  then obtain e ot node2 where lg: "logOp e node1 = (ot, node2)"
    and node': "node' = onRetryableWriteCloningCompleted env sid txn [stmtId] ot node2"
    by blast
  from participantOf_logOp [of env e node1 sid] lg
  have p2: "participantOf env node2 sid = participantOf env node1 sid" by simp
  show ?thesis
    using np p1 p2
    by (simp add: node' onRetryableWriteCloningCompleted_def Let_def participantOf_store)
qed

lemma writeRetryableMarker_fail:
  assumes "writeRetryableMarker env now oplog sid txn stmtId node = (Inl e, node')"
  shows "node' = node \<and> writeRetryableMarker env now' oplog sid txn stmtId node = (Inl e, node)"
  using assms
  by (auto simp: writeRetryableMarker_def insertPrePostImageOplogEntry_def logOp_def isNull_def
      Let_def split: option.splits if_splits prod.splits sum.splits)

lemma retryablePass_stable:
  assumes "retryablePass env now oplog node = Inr (r, node1)"
  shows "\<exists>r'. retryablePass env now' oplog node1 = Inr (r', node1) \<and> (r = Inr OK \<longrightarrow> r' = Inr OK)"
proof (cases "\<exists>txn sid stmtId. getTxnNumber oplog = Some txn \<and> getSessionId oplog = Some sid
    \<and> getStatementId oplog = Some stmtId")
  case False
  with assms have "node1 = node \<and> r = Inl UndefinedBehaviour"
    by (auto simp: retryablePass_def split: option.splits)
  with False show ?thesis
    by (auto simp: retryablePass_def split: option.splits)
next
  case True
  then obtain txn sid stmtId where
    ids: "getTxnNumber oplog = Some txn" "getSessionId oplog = Some sid"
      "getStatementId oplog = Some stmtId"
    by blast
  show ?thesis
  proof (cases "beginOrContinue env node sid txn")
    case (Inl err)
    with assms ids have "err = TransactionTooOld" and "node1 = node" and "r = Inr OK"
      by (auto simp: retryablePass_def beginOrContinue_not_incomplete
          split: ParticipantError.splits)
    with Inl ids show ?thesis by (simp add: retryablePass_def)
  next
    case (Inr n1)
    from beginOrContinue_result [OF Inr]
    have act: "activeTxnNumber (participantOf env n1 sid) = txn"
      and np: "\<not> preparedTxnInProgress (participantOf env n1 sid)"
      by simp_all
    show ?thesis
    proof (cases "checkStatementExecuted env n1 sid stmtId")
      case (Inl err)
      with assms ids Inr have "err = IncompleteTransactionHistory" and "node1 = n1"
        by (auto simp: retryablePass_def checkStatementExecuted_not_too_old
            split: ParticipantError.splits)
      with Inl ids beginOrContinue_resume [OF act np] show ?thesis
        by (simp add: retryablePass_def)
    next
      case ex: (Inr executed)
      show ?thesis
      proof (cases executed)
        case True
        with assms ids Inr ex have "node1 = n1" by (simp add: retryablePass_def)
        with ex True ids beginOrContinue_resume [OF act np] show ?thesis
          by (simp add: retryablePass_def)
      next
        case False
        with assms ids Inr ex
        have w: "writeRetryableMarker env now oplog sid txn stmtId n1 = (r, node1)"
          by (simp add: retryablePass_def)
        show ?thesis
        proof (cases r)
          case e: (Inl e)
          from writeRetryableMarker_fail [OF w [unfolded e], of now']
          have "node1 = n1"
            and "writeRetryableMarker env now' oplog sid txn stmtId n1 = (Inl e, n1)"
            by simp_all
          with e ex False ids beginOrContinue_resume [OF act np] show ?thesis
            by (simp add: retryablePass_def)
        next
          case st: (Inr status)
          from w st have "status = OK"
            by (auto simp: writeRetryableMarker_def Let_def split: prod.splits sum.splits if_splits)
          with w st have w': "writeRetryableMarker env now oplog sid txn stmtId n1 = (Inr OK, node1)"
            by simp
          from writeRetryableMarker_records [OF w' np]
          have act1: "activeTxnNumber (participantOf env node1 sid) = txn"
            and np1: "\<not> preparedTxnInProgress (participantOf env node1 sid)"
            and recd: "stmtId \<in> set (committedStatements (participantOf env node1 sid))"
            by simp_all
          from recd have "checkStatementExecuted env node1 sid stmtId = Inr True"
            by (simp add: checkStatementExecuted_def Let_def)
          with ids beginOrContinue_resume [OF act1 np1] show ?thesis
            by (simp add: retryablePass_def)
        qed
      qed
    qed
  qed
qed

lemma insertOplog_stable:
  "insertOplogAndUpdateConfigForRetryable env now oplog node = (r, node1) \<Longrightarrow>
   \<exists>r'. retryablePass env now' oplog node1 = Inr (r', node1) \<and> (r = Inr OK \<longrightarrow> r' = Inr OK)"
proof (induction env now oplog node rule: insertOplogAndUpdateConfigForRetryable.induct)
  case (1 env now oplog node)
  show ?case
  proof (cases "retryablePass env now oplog node")
    case (Inl node')
    with "1.prems" have "insertOplogAndUpdateConfigForRetryable env now oplog node' = (r, node1)"
      by simp
    from "1.IH" [OF Inl this] show ?thesis .
  next
    case (Inr res)
    with "1.prems" have "retryablePass env now oplog node = Inr (r, node1)" by simp
    from retryablePass_stable [OF this] show ?thesis .
  qed
qed

lemma insertOplog_twice:
  assumes "insertOplogAndUpdateConfigForRetryable env now oplog node = (r, node1)"
  shows "\<exists>r'. insertOplogAndUpdateConfigForRetryable env now' oplog node1 = (r', node1)
     \<and> (r = Inr OK \<longrightarrow> r' = Inr OK)"
proof -
  from insertOplog_stable [OF assms, of now']
  obtain r' where "retryablePass env now' oplog node1 = Inr (r', node1)"
    and "r = Inr OK \<longrightarrow> r' = Inr OK" by blast
  then show ?thesis by simp
qed

lemma insertOplog_already_executed:
  assumes ids: "getSessionId oplog = Some sid" "getTxnNumber oplog = Some txn"
      "getStatementId oplog = Some stmtId"
    and act: "activeTxnNumber (participantOf env node sid) = txn"
    and ex: "stmtId \<in> set (committedStatements (participantOf env node sid))"
    and np: "\<not> preparedTxnInProgress (participantOf env node sid)"
  shows "insertOplogAndUpdateConfigForRetryable env now oplog node = (Inr OK, node)"
proof -
  from ex have "checkStatementExecuted env node sid stmtId = Inr True"
    by (simp add: checkStatementExecuted_def Let_def)
  with ids beginOrContinue_resume [OF act np]
  have "retryablePass env now oplog node = Inr (Inr OK, node)"
    by (simp add: retryablePass_def)
  then show ?thesis by simp
qed

text \<open>
  C3. Let a shadow entry of a retryable write be applied on a node. If its statement is
  already recorded as executed for its session under its transaction number, and no prepared
  transaction is in progress on the session, the call returns OK and the node is left as it
  was: nothing is written to the oplog and no session is updated. Whatever the first
  application of the entry returns, a second application of the same entry leaves the node
  as the first one left it, and returns OK when the first one did.
\<close>

theorem shadow_retry_idempotent:
  assumes shadow: "isRetryableNoOp op"
  shows "(\<forall>sid txn stmtId.
            getSessionId op = Some sid \<and> getTxnNumber op = Some txn
            \<and> getStatementId op = Some stmtId
            \<and> activeTxnNumber (participantOf env node sid) = txn
            \<and> stmtId \<in> set (committedStatements (participantOf env node sid))
            \<and> \<not> preparedTxnInProgress (participantOf env node sid) \<longrightarrow>
            applyOplogEntryOrGroupedInserts env now applyOperation applyCommand op node =
              (Inr OK, node))
     \<and> (\<forall>r node1.
            applyOplogEntryOrGroupedInserts env now applyOperation applyCommand op node = (r, node1)
            \<longrightarrow>
            (\<exists>r'. applyOplogEntryOrGroupedInserts env now' applyOperation applyCommand op node1 =
                    (r', node1)
                  \<and> (r = Inr OK \<longrightarrow> r' = Inr OK)))"
  using shadow insertOplog_already_executed [of op _ _ _ env node now]
    insertOplog_twice [of env now op node _ _ now']
  by (simp add: applyOplogEntryOrGroupedInserts_def del: insertOplogAndUpdateConfigForRetryable.simps)

theorem shadow_retry_idempotent_witness:
  "fst (applyOplogEntryOrGroupedInserts sampleEnv 7 sampleApply sampleApply sampleShadow sampleNode)
     = Inr OK
   \<and> committedStatements
        (participantOf sampleEnv
          (snd (applyOplogEntryOrGroupedInserts sampleEnv 7 sampleApply sampleApply sampleShadow
                 sampleNode)) sessionS) = [0]
   \<and> length (localOplog
        (snd (applyOplogEntryOrGroupedInserts sampleEnv 7 sampleApply sampleApply sampleShadow
               sampleNode))) = 1
   \<and> applyOplogEntryOrGroupedInserts sampleEnv 8 sampleApply sampleApply sampleShadow
        (snd (applyOplogEntryOrGroupedInserts sampleEnv 7 sampleApply sampleApply sampleShadow
               sampleNode))
       = (Inr OK,
          snd (applyOplogEntryOrGroupedInserts sampleEnv 7 sampleApply sampleApply sampleShadow
               sampleNode))"
proof -
  let ?once = "applyOplogEntryOrGroupedInserts sampleEnv 7 sampleApply sampleApply sampleShadow
                 sampleNode"
  have sh: "isRetryableNoOp sampleShadow" by code_simp
  have ok: "fst ?once = Inr OK" by code_simp
  have st: "committedStatements (participantOf sampleEnv (snd ?once) sessionS) = [0]"
    by code_simp
  have lg: "length (localOplog (snd ?once)) = 1" by code_simp
  have ex: "getSessionId sampleShadow = Some sessionS \<and> getTxnNumber sampleShadow = Some 1
      \<and> getStatementId sampleShadow = Some 0
      \<and> activeTxnNumber (participantOf sampleEnv (snd ?once) sessionS) = 1
      \<and> 0 \<in> set (committedStatements (participantOf sampleEnv (snd ?once) sessionS))
      \<and> \<not> preparedTxnInProgress (participantOf sampleEnv (snd ?once) sessionS)"
    by code_simp
  from shadow_retry_idempotent [OF sh, of sampleEnv "snd ?once" 8 sampleApply sampleApply 9] ex
  have twice: "applyOplogEntryOrGroupedInserts sampleEnv 8 sampleApply sampleApply sampleShadow
      (snd ?once) = (Inr OK, snd ?once)"
    by blast
  from ok st lg twice show ?thesis by blast
qed

end
